theory Spec2Isabelle
  imports Main "HOL-Library.Word" "HOL-Library.List_Lexorder"
begin

section \<open>Strings of UTF-16 code units\<close>

text \<open>
  A JavaScript string is a finite sequence of 16-bit code units. \<open>str.length\<close> is
  the length of the list, \<open>str.charCodeAt(i)\<close> and \<open>str[i]\<close> read the unit at a
  valid index.
\<close>

type_synonym char16 = "16 word"
type_synonym jsstring = "char16 list"

text \<open>
  \<open>String.prototype.slice(a, b)\<close>: a negative index counts from the end, both
  indices are clamped to the string, and an empty string results when the
  range is empty.
\<close>

definition slice :: "jsstring \<Rightarrow> int \<Rightarrow> int \<Rightarrow> jsstring" where
  "slice str a b =
     (let len = int (length str);
          from = (if a < 0 then max (len + a) 0 else min a len);
          to = (if b < 0 then max (len + b) 0 else min b len)
      in take (nat (to - from)) (drop (nat from) str))"

section \<open>stringToArray (scanner.mjs, lines 288-307)\<close>

text \<open>
  The character pushed at position \<open>index\<close>: the condition of the source's
  conditional expression, disjunct by disjunct (the second unit is only read
  when \<open>index + 1\<close> is a valid index).
\<close>

definition charAt :: "jsstring \<Rightarrow> nat \<Rightarrow> jsstring" where
  "charAt str index =
     (let first = str ! index in
      if first < 0xd800 \<or> first > 0xdbff \<or> index + 1 = length str
         \<or> str ! (index + 1) < 0xdc00 \<or> str ! (index + 1) > 0xdfff
      then [str ! index]
      else slice str (int index) (int index + 2))"

lemma length_charAt:
  "index < length str \<Longrightarrow> length (charAt str index) = 1 \<or> length (charAt str index) = 2"
  by (auto simp: charAt_def slice_def Let_def min_def)

function stringToArray_loop :: "jsstring \<Rightarrow> nat \<Rightarrow> jsstring list \<Rightarrow> jsstring list" where
  "stringToArray_loop str index result =
     (if index < length str
      then stringToArray_loop str (index + length (charAt str index)) (result @ [charAt str index])
      else result)"
  by pat_completeness auto
termination
proof (relation "measure (\<lambda>(str, index, result). length str - index)")
  show "wf (measure (\<lambda>(str, index, result). length str - index))" by simp
next
  fix str :: jsstring and index :: nat and result :: "jsstring list"
  assume "index < length str"
  then show "((str, index + length (charAt str index), result @ [charAt str index]), (str, index, result))
        \<in> measure (\<lambda>(str, index, result). length str - index)"
    using length_charAt [of index str] by auto
qed

declare stringToArray_loop.simps [simp del]

definition stringToArray :: "jsstring \<Rightarrow> jsstring list" where
  "stringToArray str = stringToArray_loop str 0 []"

subsection \<open>Surrogates and the slices of a string\<close>

text \<open>
  The two ranges the source compares against: \<open>0xd800..0xdbff\<close> (high
  surrogates) and \<open>0xdc00..0xdfff\<close> (low surrogates).
\<close>

definition is_high :: "char16 \<Rightarrow> bool" where
  "is_high c = (0xd800 \<le> c \<and> c \<le> 0xdbff)"
definition is_low :: "char16 \<Rightarrow> bool" where
  "is_low c = (0xdc00 \<le> c \<and> c \<le> 0xdfff)"

text \<open>
  A structurally recursive description of the result, used only in proofs:
  the loop of the source computes it from any index on.
\<close>

fun chunks :: "jsstring \<Rightarrow> jsstring list" where
  "chunks [] = []"
| "chunks [c] = [[c]]"
| "chunks (c # d # rest) = (if is_high c \<and> is_low d then [c, d] # chunks rest else [c] # chunks (d # rest))"

lemma charAt_drop:
  assumes "index < length str"
  shows "charAt str index = hd (chunks (drop index str))"
proof -
  obtain c rest where d: "drop index str = c # rest"
    using assms by (metis Cons_nth_drop_Suc)
  have c: "c = str ! index" using d assms by (metis nth_via_drop)
  show ?thesis
  proof (cases rest)
    case Nil
    then have "length (drop index str) = 1" using d by simp
    then have "index + 1 = length str" using assms by simp
    then show ?thesis using d Nil c by (simp add: charAt_def)
  next
    case (Cons d' rest')
    have "length (drop index str) = Suc (Suc (length rest'))" using d Cons by simp
    then have l: "index + 1 < length str" by simp
    have d': "d' = str ! (index + 1)" using d Cons
      by (metis Cons_nth_drop_Suc Suc_eq_plus1 assms l list.inject)
    have sl: "slice str (int index) (int index + 2) = [c, d']"
      using l d Cons by (simp add: slice_def Let_def min_def take_Suc_conv_app_nth) 
    show ?thesis using d Cons c d' l sl
      by (auto simp: charAt_def Let_def is_high_def is_low_def not_less not_le)
  qed
qed

lemma chunks_unfold:
  "xs \<noteq> [] \<Longrightarrow> chunks xs = hd (chunks xs) # chunks (drop (length (hd (chunks xs))) xs)"
  by (induction xs rule: chunks.induct) auto

lemma stringToArray_loop_chunks:
  "stringToArray_loop str index result = result @ chunks (drop index str)"
proof (induction str index result rule: stringToArray_loop.induct)
  case (1 str index result)
  show ?case
  proof (cases "index < length str")
    case True
    have ne: "drop index str \<noteq> []" using True by simp
    have "chunks (drop index str) = charAt str index # chunks (drop (index + length (charAt str index)) str)"
      using chunks_unfold [OF ne] charAt_drop [OF True] by (simp add: add.commute)
    then show ?thesis using True "1.IH" [OF True]
      by (simp add: stringToArray_loop.simps [of str index result])
  next
    case False
    then show ?thesis by (simp add: stringToArray_loop.simps [of str index result])
  qed
qed

lemma stringToArray_chunks: "stringToArray str = chunks str"
  by (simp add: stringToArray_def stringToArray_loop_chunks)

lemma concat_chunks: "concat (chunks xs) = xs"
  by (induction xs rule: chunks.induct) auto

lemma chunks_nth:
  "k < length (chunks xs) \<Longrightarrow>
     (length (chunks xs ! k) = 1 \<or> length (chunks xs ! k) = 2) \<and>
     (length (chunks xs ! k) = 2 \<longleftrightarrow>
        length (concat (take k (chunks xs))) + 1 < length xs
        \<and> is_high (xs ! length (concat (take k (chunks xs))))
        \<and> is_low (xs ! (length (concat (take k (chunks xs))) + 1)))"
proof (induction xs arbitrary: k rule: chunks.induct)
  case 1
  then show ?case by simp
next
  case (2 c)
  then show ?case by simp
next
  case (3 c d rest)
  show ?case
  proof (cases k)
    case 0
    then show ?thesis by simp
  next
    case (Suc k')
    show ?thesis
    proof (cases "is_high c \<and> is_low d")
      case True
      then have "k' < length (chunks rest)" using "3.prems" Suc by simp
      from "3.IH"(1) [OF True this] show ?thesis using True Suc by auto
    next
      case False
      then have "k' < length (chunks (d # rest))" using "3.prems" Suc by auto
      from "3.IH"(2) [OF False this] show ?thesis using False Suc by auto
    qed
  qed
qed

lemma stringToArray_example: "stringToArray [0xd83d, 0xde00, 0x61] = [[0xd83d, 0xde00], [0x61]]"
  by (simp add: stringToArray_def stringToArray_loop.simps charAt_def slice_def)


text \<open>
  Claim C8. For every input string, \<open>stringToArray\<close> returns slices whose
  concatenation is the string; every slice has length 1 or 2; and the slice
  that starts at offset \<open>i\<close> of the string has length 2 exactly when the
  string has a high surrogate at \<open>i\<close> immediately followed by a low surrogate
  at \<open>i + 1\<close>.
\<close>

theorem stringToArray_partition:
  "concat (stringToArray str) = str \<and>
   (\<forall>k < length (stringToArray str).
      (length (stringToArray str ! k) = 1 \<or> length (stringToArray str ! k) = 2) \<and>
      (length (stringToArray str ! k) = 2 \<longleftrightarrow>
         length (concat (take k (stringToArray str))) + 1 < length str
         \<and> is_high (str ! length (concat (take k (stringToArray str))))
         \<and> is_low (str ! (length (concat (take k (stringToArray str))) + 1))))"
  using chunks_nth [of _ str] unfolding stringToArray_chunks concat_chunks by blast

theorem stringToArray_partition_witness:
  "0 < length (stringToArray [0xd83d, 0xde00, 0x61]) \<and> length (stringToArray [0xd83d, 0xde00, 0x61] ! 0) = 2"
  using stringToArray_partition [of "[0xd83d, 0xde00, 0x61]"]
  by (simp add: stringToArray_example is_high_def is_low_def)

section \<open>run (scanner.mjs, lines 217-275)\<close>

text \<open>
  \<open>str.replace(/[A-Z]/g, (c) => c.toLowerCase())\<close>: every unit in
  \<open>A..Z\<close> (0x41..0x5a) is replaced by its lower-case letter, all others stay.
\<close>

definition toLowerCase_AZ :: "jsstring \<Rightarrow> jsstring" where
  "toLowerCase_AZ str = map (\<lambda>c. if 0x41 \<le> c \<and> c \<le> 0x5a then c + 0x20 else c) str"

text \<open>
  The only failure of \<open>run\<close>: reading \<open>latestAccepting.t\<close> when
  \<open>latestAccepting\<close> is still \<open>null\<close> throws a TypeError.
\<close>

datatype error = TypeError

text \<open>
  The source's Token \<open>{t, v, s, e}\<close>; \<open>t\<close> is the \<open>t\<close> field of the latest
  accepting state, copied as it is.
\<close>

record 'tk token =
  tok_t :: "'tk option"
  tok_v :: jsstring
  tok_s :: int
  tok_e :: int

text \<open>
  The local variables of one iteration of the outer loop, together with the
  two cursors. They are JavaScript numbers; the counters start at \<open>-1\<close>, so
  all of them are integers here.
\<close>

record 'q scan_vars =
  state :: 'q
  tokenLength :: int
  latestAccepting :: "'q option"
  sinceAccepts :: int
  charsSinceAccepts :: int
  cursor :: int
  charCursor :: int

text \<open>
  The state machine is a parameter of \<open>run\<close>: \<open>go\<close> is the method
  \<open>state.go(input)\<close> (\<open>None\<close> for a falsy result) and \<open>tg\<close> reads the field
  \<open>state.t\<close>.
\<close>

text \<open>
  Modelled from the spec: \<open>accepts\<close> of fsm.mjs, which is not among the sources;
  the spec gives \<open>accepts(node) = tag.is_some()\<close>.
\<close>

definition accepts :: "('q \<Rightarrow> 'tk option) \<Rightarrow> 'q \<Rightarrow> bool" where
  "accepts tg q = (tg q \<noteq> None)"

text \<open>
  The body of the inner while loop (lines 243-257) for a successful
  transition to \<open>nextState\<close>. \<open>iterable[charCursor]\<close> is read at an index that
  the loop condition has checked.
\<close>

definition scan_step :: "('q \<Rightarrow> 'tk option) \<Rightarrow> jsstring list \<Rightarrow> 'q scan_vars \<Rightarrow> 'q \<Rightarrow> 'q scan_vars" where
  "scan_step tg iterable vs nextState =
     (let len = int (length (iterable ! nat (charCursor vs)));
          vs1 = vs\<lparr>state := nextState\<rparr>;
          vs2 = (if accepts tg nextState
                 then vs1\<lparr>sinceAccepts := 0, charsSinceAccepts := 0, latestAccepting := Some nextState\<rparr>
                 else if sinceAccepts vs1 \<ge> 0
                 then vs1\<lparr>sinceAccepts := sinceAccepts vs1 + len,
                          charsSinceAccepts := charsSinceAccepts vs1 + 1\<rparr>
                 else vs1)
      in vs2\<lparr>tokenLength := tokenLength vs2 + len, cursor := cursor vs2 + len,
              charCursor := charCursor vs2 + 1\<rparr>)"

lemma charCursor_scan_step [simp]:
  "charCursor (scan_step tg iterable vs q) = charCursor vs + 1"
  by (simp add: scan_step_def Let_def)

function scan :: "('q \<Rightarrow> jsstring \<Rightarrow> 'q option) \<Rightarrow> ('q \<Rightarrow> 'tk option) \<Rightarrow> jsstring list
    \<Rightarrow> 'q scan_vars \<Rightarrow> 'q scan_vars" where
  "scan go tg iterable vs =
     (if charCursor vs < int (length iterable)
      then (case go (state vs) (iterable ! nat (charCursor vs)) of
              None \<Rightarrow> vs
            | Some nextState \<Rightarrow> scan go tg iterable (scan_step tg iterable vs nextState))
      else vs)"
  by pat_completeness auto
termination
  by (relation "measure (\<lambda>(go, tg, iterable, vs). nat (int (length iterable) - charCursor vs))") auto

declare scan.simps [simp del]


text \<open>The variables at the start of an iteration of the outer loop (lines 235-240).\<close>

definition init_vars :: "'q \<Rightarrow> int \<Rightarrow> int \<Rightarrow> 'q scan_vars" where
  "init_vars start cursor0 charCursor0 =
     \<lparr>state = start, tokenLength = 0, latestAccepting = None, sinceAccepts = - 1,
      charsSinceAccepts = - 1, cursor = cursor0, charCursor = charCursor0\<rparr>"

text \<open>
  What the inner loop keeps true: the counters are \<open>-1\<close> until the first
  accepting state, and afterwards they count strictly fewer characters than
  the loop has read.
\<close>

definition progress :: "int \<Rightarrow> 'q scan_vars \<Rightarrow> bool" where
  "progress charCursor0 vs =
     (charCursor0 \<le> charCursor vs \<and>
      (case latestAccepting vs of
         None \<Rightarrow> sinceAccepts vs = - 1 \<and> charsSinceAccepts vs = - 1
       | Some q \<Rightarrow> 0 \<le> sinceAccepts vs \<and> 0 \<le> charsSinceAccepts vs
                 \<and> charsSinceAccepts vs < charCursor vs - charCursor0))"

lemma progress_init: "progress charCursor0 (init_vars start cursor0 charCursor0)"
  by (simp add: progress_def init_vars_def)

lemma progress_step:
  "progress c0 vs \<Longrightarrow> progress c0 (scan_step tg iterable vs q)"
  by (auto simp: progress_def scan_step_def Let_def split: option.splits)

lemma progress_scan:
  "progress c0 vs \<Longrightarrow> progress c0 (scan go tg iterable vs)"
proof (induction go tg iterable vs rule: scan.induct)
  case (1 go tg iterable vs)
  show ?case
  proof (cases "charCursor vs < int (length iterable)")
    case True
    show ?thesis
    proof (cases "go (state vs) (iterable ! nat (charCursor vs))")
      case None
      then show ?thesis using True "1.prems" by (simp add: scan.simps [of go tg iterable vs])
    next
      case (Some q)
      then show ?thesis using True "1.IH" [OF True Some progress_step [OF "1.prems"]]
        by (simp add: scan.simps [of go tg iterable vs])
    qed
  next
    case False
    then show ?thesis using "1.prems" by (simp add: scan.simps [of go tg iterable vs])
  qed
qed

lemma scan_advances:
  assumes "latestAccepting (scan go tg iterable (init_vars start cursor0 c0)) = Some q"
  shows "c0 < charCursor (scan go tg iterable (init_vars start cursor0 c0))
              - charsSinceAccepts (scan go tg iterable (init_vars start cursor0 c0))"
  using progress_scan [OF progress_init, of c0 go tg iterable start cursor0] assms
  by (simp add: progress_def)

text \<open>
  The outer loop (lines 234-272): scan, roll back, push the token. The token
  object is built field by field, so \<open>latestAccepting.t\<close> is read first and a
  \<open>null\<close> there throws.
\<close>

function run_loop :: "('q \<Rightarrow> jsstring \<Rightarrow> 'q option) \<Rightarrow> ('q \<Rightarrow> 'tk option) \<Rightarrow> 'q \<Rightarrow> jsstring
    \<Rightarrow> jsstring list \<Rightarrow> int \<Rightarrow> int \<Rightarrow> 'tk token list \<Rightarrow> error + 'tk token list" where
  "run_loop go tg start str iterable cursor0 charCursor0 tokens =
     (if charCursor0 < int (length iterable)
      then (let vs = scan go tg iterable (init_vars start cursor0 charCursor0);
                cursor1 = cursor vs - sinceAccepts vs;
                charCursor1 = charCursor vs - charsSinceAccepts vs;
                tokenLength1 = tokenLength vs - sinceAccepts vs
            in case latestAccepting vs of
                 None \<Rightarrow> Inl TypeError
               | Some la \<Rightarrow>
                   run_loop go tg start str iterable cursor1 charCursor1
                     (tokens @ [\<lparr>tok_t = tg la,
                                 tok_v = slice str (cursor1 - tokenLength1) cursor1,
                                 tok_s = cursor1 - tokenLength1,
                                 tok_e = cursor1\<rparr>]))
      else Inr tokens)"
  by pat_completeness auto
termination
proof (relation "measure (\<lambda>(go, tg, start, str, iterable, cursor0, charCursor0, tokens).
                    nat (int (length iterable) - charCursor0))")
  show "wf (measure (\<lambda>(go, tg, start, str, iterable, cursor0, charCursor0, tokens).
                    nat (int (length iterable) - charCursor0)))" by simp
next
  fix go :: "'q \<Rightarrow> jsstring \<Rightarrow> 'q option" and tg :: "'q \<Rightarrow> 'tk option" and start :: 'q
    and str :: jsstring and iterable :: "jsstring list" and cursor0 charCursor0 :: int
    and tokens :: "'tk token list" and vs cursor1 charCursor1 tokenLength1 la
  assume lt: "charCursor0 < int (length iterable)"
    and vs: "vs = scan go tg iterable (init_vars start cursor0 charCursor0)"
    and c1: "charCursor1 = charCursor vs - charsSinceAccepts vs"
    and la: "latestAccepting vs = Some la"
  have "charCursor0 < charCursor1" using scan_advances [of go tg iterable start cursor0 charCursor0 la] la vs c1
    by simp
  then show "((go, tg, start, str, iterable, cursor1, charCursor1,
          tokens @ [\<lparr>tok_t = tg la, tok_v = slice str (cursor1 - tokenLength1) cursor1,
                      tok_s = cursor1 - tokenLength1, tok_e = cursor1\<rparr>]),
         go, tg, start, str, iterable, cursor0, charCursor0, tokens)
        \<in> measure (\<lambda>(go, tg, start, str, iterable, cursor0, charCursor0, tokens).
                    nat (int (length iterable) - charCursor0))"
    using lt by simp
qed

declare run_loop.simps [simp del]

definition run_with :: "('q \<Rightarrow> jsstring \<Rightarrow> 'q option) \<Rightarrow> ('q \<Rightarrow> 'tk option) \<Rightarrow> 'q \<Rightarrow> jsstring
    \<Rightarrow> error + 'tk token list" where
  "run_with go tg start str =
     run_loop go tg start str (stringToArray (toLowerCase_AZ str)) 0 0 []"

section \<open>The tokens partition the input\<close>

text \<open>The string offset of the \<open>n\<close>-th element of \<open>iterable\<close>.\<close>

definition off :: "jsstring list \<Rightarrow> int \<Rightarrow> int" where
  "off iterable n = int (length (concat (take (nat n) iterable)))"

lemma off_0 [simp]: "off iterable 0 = 0"
  by (simp add: off_def)

lemma off_Suc:
  "0 \<le> n \<Longrightarrow> n < int (length iterable) \<Longrightarrow>
     off iterable (n + 1) = off iterable n + int (length (iterable ! nat n))"
proof -
  assume a: "0 \<le> n" "n < int (length iterable)"
  then have "nat (n + 1) = Suc (nat n)" "nat n < length iterable" by auto
  then show ?thesis by (simp add: off_def take_Suc_conv_app_nth)
qed

lemma off_mono:
  "0 \<le> m \<Longrightarrow> m \<le> n \<Longrightarrow> off iterable m \<le> off iterable n"
proof -
  assume "0 \<le> m" "m \<le> n"
  then have "take (nat n) iterable = take (nat m) iterable @ take (nat n - nat m) (drop (nat m) iterable)"
    by (metis le_add_diff_inverse nat_mono take_add)
  then show ?thesis by (simp add: off_def)
qed

lemma off_strict:
  assumes "\<forall>x \<in> set iterable. x \<noteq> []" "0 \<le> m" "m < n" "n \<le> int (length iterable)"
  shows "off iterable m < off iterable n"
proof -
  have "off iterable (m + 1) = off iterable m + int (length (iterable ! nat m))"
    using assms by (intro off_Suc) auto
  moreover have "iterable ! nat m \<in> set iterable" using assms by (intro nth_mem) auto
  then have "0 < length (iterable ! nat m)" using assms(1) by auto
  moreover have "off iterable (m + 1) \<le> off iterable n" using assms by (intro off_mono) auto
  ultimately show ?thesis by linarith
qed

definition offsets :: "jsstring list \<Rightarrow> int \<Rightarrow> int \<Rightarrow> 'q scan_vars \<Rightarrow> bool" where
  "offsets iterable cursor0 c0 vs =
     (0 \<le> c0 \<and> charCursor vs \<le> int (length iterable)
      \<and> cursor vs = cursor0 + off iterable (charCursor vs) - off iterable c0
      \<and> tokenLength vs = cursor vs - cursor0
      \<and> (latestAccepting vs \<noteq> None \<longrightarrow>
           sinceAccepts vs = off iterable (charCursor vs)
                              - off iterable (charCursor vs - charsSinceAccepts vs)))"

lemma offsets_init:
  "0 \<le> c0 \<Longrightarrow> c0 \<le> int (length iterable) \<Longrightarrow> offsets iterable cursor0 c0 (init_vars start cursor0 c0)"
  by (simp add: offsets_def init_vars_def)

lemma offsets_step:
  assumes "offsets iterable cursor0 c0 vs" "progress c0 vs" "charCursor vs < int (length iterable)"
  shows "offsets iterable cursor0 c0 (scan_step tg iterable vs q)"
proof -
  have n: "0 \<le> charCursor vs" using assms by (simp add: offsets_def progress_def)
  note s = off_Suc [OF n assms(3)]
  show ?thesis using assms s
    by (auto simp: offsets_def progress_def scan_step_def Let_def split: option.splits)
qed

lemma offsets_scan:
  "offsets iterable cursor0 c0 vs \<Longrightarrow> progress c0 vs \<Longrightarrow>
     offsets iterable cursor0 c0 (scan go tg iterable vs)"
proof (induction go tg iterable vs rule: scan.induct)
  case (1 go tg iterable vs)
  show ?case
  proof (cases "charCursor vs < int (length iterable)")
    case True
    show ?thesis
    proof (cases "go (state vs) (iterable ! nat (charCursor vs))")
      case None
      then show ?thesis using True "1.prems" by (simp add: scan.simps [of go tg iterable vs])
    next
      case (Some q)
      then show ?thesis
        using True "1.IH" [OF True Some offsets_step [OF "1.prems" True] progress_step [OF "1.prems"(2)]]
        by (simp add: scan.simps [of go tg iterable vs])
    qed
  next
    case False
    then show ?thesis using "1.prems" by (simp add: scan.simps [of go tg iterable vs])
  qed
qed

text \<open>The tag of the latest accepting state is never null.\<close>

definition tagged :: "('q \<Rightarrow> 'tk option) \<Rightarrow> 'q scan_vars \<Rightarrow> bool" where
  "tagged tg vs = (\<forall>q. latestAccepting vs = Some q \<longrightarrow> tg q \<noteq> None)"

lemma tagged_scan: "tagged tg vs \<Longrightarrow> tagged tg (scan go tg iterable vs)"
proof (induction go tg iterable vs rule: scan.induct)
  case (1 go tg iterable vs)
  show ?case
  proof (cases "charCursor vs < int (length iterable)")
    case True
    show ?thesis
    proof (cases "go (state vs) (iterable ! nat (charCursor vs))")
      case None
      then show ?thesis using True "1.prems" by (simp add: scan.simps [of go tg iterable vs])
    next
      case (Some q)
      have "tagged tg (scan_step tg iterable vs q)" using "1.prems"
        by (auto simp: tagged_def scan_step_def Let_def accepts_def)
      then show ?thesis
        using True "1.IH" [OF True Some] Some
        by (simp add: scan.simps [of go tg iterable vs])
    qed
  next
    case False
    then show ?thesis using "1.prems" by (simp add: scan.simps [of go tg iterable vs])
  qed
qed

text \<open>
  Tokens that follow one another from offset \<open>a\<close> to offset \<open>b\<close>, each
  non-empty, tagged, and holding its slice of the string.
\<close>

fun chain :: "jsstring \<Rightarrow> int \<Rightarrow> 'tk token list \<Rightarrow> int \<Rightarrow> bool" where
  "chain str a [] b = (a = b)"
| "chain str a (x # xs) b =
     (tok_s x = a \<and> a < tok_e x \<and> tok_t x \<noteq> None \<and> tok_v x = slice str a (tok_e x)
      \<and> chain str (tok_e x) xs b)"

lemma run_loop_chain:
  assumes "run_loop go tg start str iterable cursor0 c0 tokens = Inr toks"
    and "\<forall>x \<in> set iterable. x \<noteq> []"
    and "0 \<le> c0" and "c0 \<le> int (length iterable)" and "cursor0 = off iterable c0"
  shows "\<exists>new. toks = tokens @ new \<and> chain str cursor0 new (off iterable (int (length iterable)))"
  using assms
proof (induction go tg start str iterable cursor0 c0 tokens rule: run_loop.induct)
  case (1 go tg start str iterable cursor0 c0 tokens)
  show ?case
  proof (cases "c0 < int (length iterable)")
    case False
    then have eq: "c0 = int (length iterable)" using "1.prems" by simp
    have "toks = tokens" using "1.prems"(1) False
      by (simp add: run_loop.simps [of go tg start str iterable cursor0 c0 tokens])
    then show ?thesis using "1.prems"(5) eq by simp
  next
    case True
    define vs where "vs = scan go tg iterable (init_vars start cursor0 c0)"
    define cursor1 where "cursor1 = cursor vs - sinceAccepts vs"
    define c1 where "c1 = charCursor vs - charsSinceAccepts vs"
    define tl1 where "tl1 = tokenLength vs - sinceAccepts vs"
    have pr: "progress c0 vs" unfolding vs_def by (rule progress_scan [OF progress_init])
    have of: "offsets iterable cursor0 c0 vs" unfolding vs_def
      using "1.prems" by (intro offsets_scan offsets_init progress_init) auto
    have tg: "tagged tg vs" unfolding vs_def
      by (rule tagged_scan) (simp add: tagged_def init_vars_def)
    obtain la where la: "latestAccepting vs = Some la"
      using "1.prems"(1) True
      by (cases "latestAccepting vs")
         (auto simp: run_loop.simps [of go tg start str iterable cursor0 c0 tokens] vs_def Let_def)
    define tok where "tok = \<lparr>tok_t = tg la, tok_v = slice str (cursor1 - tl1) cursor1,
                                 tok_s = cursor1 - tl1, tok_e = cursor1\<rparr>"
    have rec: "run_loop go tg start str iterable cursor1 c1 (tokens @ [tok]) = Inr toks"
      using "1.prems"(1) True la
      by (simp add: run_loop.simps [of go tg start str iterable cursor0 c0 tokens] Let_def
          vs_def [symmetric] cursor1_def c1_def tl1_def tok_def)
    have c1: "c0 < c1" "c1 \<le> int (length iterable)" "0 \<le> c1"
      using pr of la "1.prems" by (auto simp: progress_def offsets_def c1_def)
    have cur1: "cursor1 = off iterable c1"
      using pr of la "1.prems" by (auto simp: progress_def offsets_def c1_def cursor1_def)
    have st: "cursor1 - tl1 = cursor0"
      using of by (simp add: offsets_def cursor1_def tl1_def)
    have lt: "cursor0 < cursor1"
      using off_strict [OF "1.prems"(2) "1.prems"(3) c1(1) c1(2)] cur1 "1.prems" by simp
    have "\<exists>new. toks = (tokens @ [tok]) @ new \<and> chain str cursor1 new (off iterable (int (length iterable)))"
      using "1.IH" [OF True vs_def cursor1_def c1_def tl1_def la] rec "1.prems"(2) c1 cur1
      by (simp add: tok_def)
    then obtain new where new: "toks = (tokens @ [tok]) @ new"
        "chain str cursor1 new (off iterable (int (length iterable)))" by blast
    have "chain str cursor0 (tok # new) (off iterable (int (length iterable)))"
      using new(2) st lt tg la by (simp add: tok_def tagged_def)
    then show ?thesis using new(1) by auto
  qed
qed

lemma slice_nat:
  "0 \<le> a \<Longrightarrow> a \<le> b \<Longrightarrow> b \<le> int (length str) \<Longrightarrow>
     slice str a b = take (nat b - nat a) (drop (nat a) str)"
  by (simp add: slice_def Let_def min_def nat_diff_distrib)

lemma slice_append:
  assumes "0 \<le> a" "a \<le> m" "m \<le> b" "b \<le> int (length str)"
  shows "slice str a m @ slice str m b = slice str a b"
proof -
  have le: "nat a \<le> nat m" "nat m \<le> nat b" using assms by auto
  have "take (nat b - nat a) (drop (nat a) str)
        = take ((nat m - nat a) + (nat b - nat m)) (drop (nat a) str)"
    using le by simp
  also have "\<dots> = take (nat m - nat a) (drop (nat a) str)
                 @ take (nat b - nat m) (drop (nat m - nat a) (drop (nat a) str))"
    by (rule take_add)
  also have "drop (nat m - nat a) (drop (nat a) str) = drop (nat m) str"
    using le by simp
  finally show ?thesis using assms by (simp add: slice_nat)
qed

lemma slice_full: "slice str 0 (int (length str)) = str"
  by (simp add: slice_def)

lemma chain_le: "chain str lo xs hi \<Longrightarrow> lo \<le> hi"
proof (induction xs arbitrary: lo)
  case Nil
  then show ?case by simp
next
  case (Cons x xs)
  then show ?case using Cons.IH [of "tok_e x"] by fastforce
qed

lemma chain_last: "chain str lo xs hi \<Longrightarrow> xs \<noteq> [] \<Longrightarrow> tok_e (last xs) = hi"
proof (induction xs arbitrary: lo)
  case Nil
  then show ?case by simp
next
  case (Cons x xs)
  then show ?case using Cons.IH [of "tok_e x"] by (cases xs) auto
qed

lemma chain_adjacent:
  "chain str a xs b \<Longrightarrow> Suc i < length xs \<Longrightarrow> tok_s (xs ! Suc i) = tok_e (xs ! i)"
proof (induction xs arbitrary: a i)
  case Nil
  then show ?case by simp
next
  case (Cons x xs)
  show ?case
  proof (cases i)
    case 0
    then show ?thesis using Cons.prems by (cases xs) auto
  next
    case (Suc k)
    then show ?thesis using Cons.IH [of "tok_e x" k] Cons.prems by simp
  qed
qed

lemma chain_members:
  "chain str a xs b \<Longrightarrow> x \<in> set xs \<Longrightarrow>
     a \<le> tok_s x \<and> tok_s x < tok_e x \<and> tok_e x \<le> b \<and> tok_t x \<noteq> None
     \<and> tok_v x = slice str (tok_s x) (tok_e x)"
proof (induction xs arbitrary: a)
  case Nil
  then show ?case by simp
next
  case (Cons y ys)
  show ?case
  proof (cases "x = y")
    case True
    then show ?thesis using Cons.prems chain_le [of str "tok_e y" ys b] by auto
  next
    case False
    then have "x \<in> set ys" using Cons.prems by simp
    from Cons.IH [OF _ this, of "tok_e y"] show ?thesis using Cons.prems by auto
  qed
qed

lemma chain_concat:
  "chain str a xs b \<Longrightarrow> 0 \<le> a \<Longrightarrow> b \<le> int (length str) \<Longrightarrow>
     concat (map tok_v xs) = slice str a b"
proof (induction xs arbitrary: a)
  case Nil
  then show ?case by (simp add: slice_def Let_def min_def)
next
  case (Cons x xs)
  have le: "tok_e x \<le> b" using Cons.prems chain_le [of str "tok_e x" xs b] by simp
  have "concat (map tok_v xs) = slice str (tok_e x) b"
    using Cons.IH [of "tok_e x"] Cons.prems by simp
  then show ?case using Cons.prems le slice_append [of a "tok_e x" b str] by simp
qed

lemma length_toLowerCase_AZ [simp]: "length (toLowerCase_AZ str) = length str"
  by (simp add: toLowerCase_AZ_def)

lemma chunks_nonempty: "x \<in> set (chunks xs) \<Longrightarrow> x \<noteq> []"
  by (induction xs rule: chunks.induct) (auto split: if_splits)

lemma off_stringToArray:
  "off (stringToArray str) (int (length (stringToArray str))) = int (length str)"
  by (simp add: off_def stringToArray_chunks concat_chunks)

lemma run_with_chain:
  assumes "run_with go tg start str = Inr toks"
  shows "chain str 0 toks (int (length str))"
proof -
  let ?it = "stringToArray (toLowerCase_AZ str)"
  have ne: "\<forall>x \<in> set ?it. x \<noteq> []" using chunks_nonempty by (auto simp: stringToArray_chunks)
  from run_loop_chain [OF assms [unfolded run_with_def] ne]
  show ?thesis using off_stringToArray [of "toLowerCase_AZ str"] by simp
qed

text \<open>
  Claim C1. Whatever the state machine, a token list that \<open>run\<close> returns partitions
  the input: the first token starts at 0, each later token starts where the one before it
  ends, the last token ends at the length of the string, every token is non-empty and its
  value is the slice of the original string between its offsets, and the values concatenated
  in order give the string back.
\<close>

theorem run_partition:
  assumes "run_with go tg start str = Inr toks"
  shows "(toks \<noteq> [] \<longrightarrow> tok_s (hd toks) = 0 \<and> tok_e (last toks) = int (length str))
       \<and> (\<forall>i. Suc i < length toks \<longrightarrow> tok_s (toks ! Suc i) = tok_e (toks ! i))
       \<and> (\<forall>x \<in> set toks. tok_s x < tok_e x \<and> tok_v x = slice str (tok_s x) (tok_e x))
       \<and> concat (map tok_v toks) = str"
proof -
  note ch = run_with_chain [OF assms]
  have "toks \<noteq> [] \<longrightarrow> tok_s (hd toks) = 0" using ch by (cases toks) auto
  moreover have "toks \<noteq> [] \<longrightarrow> tok_e (last toks) = int (length str)" using chain_last [OF ch] by simp
  moreover have "\<forall>i. Suc i < length toks \<longrightarrow> tok_s (toks ! Suc i) = tok_e (toks ! i)"
    using chain_adjacent [OF ch] by simp
  moreover have "\<forall>x \<in> set toks. tok_s x < tok_e x \<and> tok_v x = slice str (tok_s x) (tok_e x)"
    using chain_members [OF ch] by simp
  moreover have "concat (map tok_v toks) = str"
    using chain_concat [OF ch] slice_full [of str] by simp
  ultimately show ?thesis by blast
qed

section \<open>The state machine (fsm.mjs, regexp.mjs, text.mjs)\<close>

text \<open>
  Modelled from the spec: the character classes of regexp.mjs are the five predicates that
  the registrations of \<open>init\<close> name; what each of them matches is a parameter
  \<open>test\<close> of the model. The group flags are the ones \<open>init\<close> passes.
\<close>

datatype cls = re_DIGIT | re_ASCII_LETTER | re_LETTER | re_SPACE | re_EMOJI

datatype flag = numeric | asciinumeric | alpha | alphanumeric | ascii | emoji | scheme
  | slashscheme | tld | utld | domain | whitespace

text \<open>
  Modelled from the spec: a token name of text.mjs is a string constant; the tag of a custom
  scheme is the scheme string itself.
\<close>

datatype tk = Tk string | Custom jsstring

text \<open>
  Modelled from the spec: a node has literal edges \<open>j\<close>, class edges \<open>jr\<close> in
  insertion order, a default edge \<open>jd\<close> and an optional tag \<open>t\<close>. Nodes are
  mutable objects that several edges may share, so they live in a store: \<open>heap\<close> maps
  an address to a node, \<open>count\<close> is the next free address and \<open>groups\<close> is
  the table of token groups.
\<close>

record State =
  j :: "jsstring \<rightharpoonup> nat"
  jr :: "(cls \<times> nat option) list"
  jd :: "nat option"
  t :: "tk option"

record fsm =
  heap :: "nat \<Rightarrow> State"
  count :: nat
  groups :: "flag \<Rightarrow> tk list"

definition new_State :: "tk option \<Rightarrow> State" where
  "new_State tok = \<lparr>j = Map.empty, jr = [], jd = None, t = tok\<rparr>"

definition alloc :: "fsm \<Rightarrow> State \<Rightarrow> nat \<times> fsm" where
  "alloc F st = (count F, F\<lparr>heap := (heap F)(count F := st), count := count F + 1\<rparr>)"

definition set_j :: "fsm \<Rightarrow> nat \<Rightarrow> jsstring \<Rightarrow> nat \<Rightarrow> fsm" where
  "set_j F src input n = F\<lparr>heap := (heap F)(src := (heap F src)\<lparr>j := (j (heap F src))(input \<mapsto> n)\<rparr>)\<rparr>"

definition push_jr :: "fsm \<Rightarrow> nat \<Rightarrow> cls \<Rightarrow> nat option \<Rightarrow> fsm" where
  "push_jr F src r n = F\<lparr>heap := (heap F)(src := (heap F src)\<lparr>jr := jr (heap F src) @ [(r, n)]\<rparr>)\<rparr>"

text \<open>
  Modelled from the spec: \<open>step(node, ch)\<close> resolves a literal edge first, then the
  class edges in insertion order (the first class that matches decides, also when its target
  is the null of a dead edge), then the default edge.
\<close>

definition go :: "(cls \<Rightarrow> jsstring \<Rightarrow> bool) \<Rightarrow> (nat \<Rightarrow> State) \<Rightarrow> nat \<Rightarrow> jsstring \<Rightarrow> nat option" where
  "go test H q input =
     (case j (H q) input of
        Some n \<Rightarrow> Some n
      | None \<Rightarrow>
          (case find (\<lambda>(r, n). test r input) (jr (H q)) of
             Some (r, n) \<Rightarrow> n
           | None \<Rightarrow> jd (H q)))"

text \<open>
  Modelled from the spec: a token joins the group of each flag once.
\<close>

definition addToGroups :: "tk \<Rightarrow> flag list \<Rightarrow> fsm \<Rightarrow> fsm" where
  "addToGroups tok flags F =
     F\<lparr>groups := foldl (\<lambda>g k. if tok \<in> set (g k) then g else g(k := g k @ [tok])) (groups F) flags\<rparr>"

text \<open>
  Modelled from the spec: \<open>add_literal(src, ch, target?)\<close> and
  \<open>add_class(src, predicate, target?)\<close>. The third argument is an existing node, a
  token name for a fresh accepting node, or absent: then the existing target is reused, or
  a fresh non-accepting node is created.
\<close>

datatype nxt = NoNext | NextToken tk | NextState nat

definition tt :: "fsm \<Rightarrow> nat \<Rightarrow> jsstring \<Rightarrow> nxt \<Rightarrow> flag list \<Rightarrow> nat \<times> fsm" where
  "tt F src input next flags =
     (case next of
        NextState n \<Rightarrow> (n, set_j F src input n)
      | NextToken tok \<Rightarrow>
          (let (n, F1) = alloc F (new_State (Some tok))
           in (n, addToGroups tok flags (set_j F1 src input n)))
      | NoNext \<Rightarrow>
          (case j (heap F src) input of
             Some n \<Rightarrow> (n, F)
           | None \<Rightarrow> (let (n, F1) = alloc F (new_State None) in (n, set_j F1 src input n))))"

definition tr :: "fsm \<Rightarrow> nat \<Rightarrow> cls \<Rightarrow> nxt \<Rightarrow> flag list \<Rightarrow> nat \<times> fsm" where
  "tr F src r next flags =
     (case next of
        NextState n \<Rightarrow> (n, push_jr F src r (Some n))
      | NextToken tok \<Rightarrow>
          (let (n, F1) = alloc F (new_State (Some tok))
           in (n, addToGroups tok flags (push_jr F1 src r (Some n))))
      | NoNext \<Rightarrow>
          (case find (\<lambda>(r', n). r' = r \<and> n \<noteq> None) (jr (heap F src)) of
             Some (r', Some n) \<Rightarrow> (n, F)
           | _ \<Rightarrow> (let (n, F1) = alloc F (new_State None) in (n, push_jr F1 src r (Some n)))))"

text \<open>
  Modelled from the spec: \<open>ts\<close> is \<open>add_chain\<close> for a word that comes without
  a default tag and side transitions (the source calls \<open>fastts\<close> the fast version of
  \<open>ts\<close>, for when the transition defaults are well known). The defaults are the
  machine's own: every character of the word gets a new node, which starts as a copy of
  the node that \<open>step\<close> reaches on that character before the registration, so an
  intermediate node accepts with the tag, and keeps the transitions, that its prefix had
  already. Where the machine has no step the new node is fresh and does not accept. The
  node of the last character gets the token of the word, and the token joins the groups
  of the flags.
\<close>

definition tt_chain :: "(cls \<Rightarrow> jsstring \<Rightarrow> bool) \<Rightarrow> fsm \<Rightarrow> nat \<Rightarrow> jsstring \<Rightarrow> tk option
    \<Rightarrow> flag list \<Rightarrow> nat \<times> fsm" where
  "tt_chain test F src input tok flags =
     (let st = (case go test (heap F) src input of Some m \<Rightarrow> heap F m | None \<Rightarrow> new_State None);
          (n, F1) = alloc F (case tok of Some k \<Rightarrow> st\<lparr>t := Some k\<rparr> | None \<Rightarrow> st);
          F2 = set_j F1 src input n
      in (n, case tok of Some k \<Rightarrow> addToGroups k flags F2 | None \<Rightarrow> F2))"

fun ts :: "(cls \<Rightarrow> jsstring \<Rightarrow> bool) \<Rightarrow> fsm \<Rightarrow> nat \<Rightarrow> jsstring \<Rightarrow> tk \<Rightarrow> flag list
    \<Rightarrow> nat \<times> fsm" where
  "ts test F src [] tok flags = (src, F)"
| "ts test F src [c] tok flags = tt_chain test F src [c] (Some tok) flags"
| "ts test F src (c # rest) tok flags =
     (let (n, F1) = tt_chain test F src [c] None [] in ts test F1 n rest tok flags)"

text \<open>
  \<open>fastts\<close> (scanner.mjs, lines 318-336). The loop walks all characters but the last,
  following an existing literal edge or creating a node tagged \<open>defaultt\<close>; then a new
  node tagged \<open>t\<close> is always created and stored under the last character, replacing
  an edge that was there. On the empty string the key is \<open>input[-1]\<close>, which
  JavaScript turns into the property name \<open>undefined\<close>.
\<close>

definition undefined_key :: jsstring where
  "undefined_key = [0x75, 0x6e, 0x64, 0x65, 0x66, 0x69, 0x6e, 0x65, 0x64]"

fun fastts_walk :: "fsm \<Rightarrow> nat \<Rightarrow> jsstring \<Rightarrow> tk \<Rightarrow> (cls \<times> nat option) list \<Rightarrow> nat \<times> fsm" where
  "fastts_walk F src [] defaultt jr0 = (src, F)"
| "fastts_walk F src [c] defaultt jr0 = (src, F)"
| "fastts_walk F src (c # rest) defaultt jr0 =
     (case j (heap F src) [c] of
        Some next \<Rightarrow> fastts_walk F next rest defaultt jr0
      | None \<Rightarrow>
          (let (next, F1) = alloc F ((new_State (Some defaultt))\<lparr>jr := jr0\<rparr>)
           in fastts_walk (set_j F1 src [c] next) next rest defaultt jr0))"

definition fastts :: "fsm \<Rightarrow> nat \<Rightarrow> jsstring \<Rightarrow> tk \<Rightarrow> tk \<Rightarrow> (cls \<times> nat option) list \<Rightarrow> nat \<times> fsm" where
  "fastts F src input tok defaultt jr0 =
     (let (src1, F1) = fastts_walk F src input defaultt jr0;
          (next, F2) = alloc F1 ((new_State (Some tok))\<lparr>jr := jr0\<rparr>)
      in (next, set_j F2 src1 (if input = [] then undefined_key else [last input]) next))"

subsection \<open>Token names (text.mjs)\<close>

abbreviation APOSTROPHE :: tk where "APOSTROPHE \<equiv> Tk ''APOSTROPHE''"
abbreviation OPENBRACE :: tk where "OPENBRACE \<equiv> Tk ''OPENBRACE''"
abbreviation CLOSEBRACE :: tk where "CLOSEBRACE \<equiv> Tk ''CLOSEBRACE''"
abbreviation OPENBRACKET :: tk where "OPENBRACKET \<equiv> Tk ''OPENBRACKET''"
abbreviation CLOSEBRACKET :: tk where "CLOSEBRACKET \<equiv> Tk ''CLOSEBRACKET''"
abbreviation OPENPAREN :: tk where "OPENPAREN \<equiv> Tk ''OPENPAREN''"
abbreviation CLOSEPAREN :: tk where "CLOSEPAREN \<equiv> Tk ''CLOSEPAREN''"
abbreviation OPENANGLEBRACKET :: tk where "OPENANGLEBRACKET \<equiv> Tk ''OPENANGLEBRACKET''"
abbreviation CLOSEANGLEBRACKET :: tk where "CLOSEANGLEBRACKET \<equiv> Tk ''CLOSEANGLEBRACKET''"
abbreviation FULLWIDTHLEFTPAREN :: tk where "FULLWIDTHLEFTPAREN \<equiv> Tk ''FULLWIDTHLEFTPAREN''"
abbreviation FULLWIDTHRIGHTPAREN :: tk where "FULLWIDTHRIGHTPAREN \<equiv> Tk ''FULLWIDTHRIGHTPAREN''"
abbreviation LEFTCORNERBRACKET :: tk where "LEFTCORNERBRACKET \<equiv> Tk ''LEFTCORNERBRACKET''"
abbreviation RIGHTCORNERBRACKET :: tk where "RIGHTCORNERBRACKET \<equiv> Tk ''RIGHTCORNERBRACKET''"
abbreviation LEFTWHITECORNERBRACKET :: tk where "LEFTWHITECORNERBRACKET \<equiv> Tk ''LEFTWHITECORNERBRACKET''"
abbreviation RIGHTWHITECORNERBRACKET :: tk where "RIGHTWHITECORNERBRACKET \<equiv> Tk ''RIGHTWHITECORNERBRACKET''"
abbreviation FULLWIDTHLESSTHAN :: tk where "FULLWIDTHLESSTHAN \<equiv> Tk ''FULLWIDTHLESSTHAN''"
abbreviation FULLWIDTHGREATERTHAN :: tk where "FULLWIDTHGREATERTHAN \<equiv> Tk ''FULLWIDTHGREATERTHAN''"
abbreviation AMPERSAND :: tk where "AMPERSAND \<equiv> Tk ''AMPERSAND''"
abbreviation ASTERISK :: tk where "ASTERISK \<equiv> Tk ''ASTERISK''"
abbreviation AT :: tk where "AT \<equiv> Tk ''AT''"
abbreviation BACKTICK :: tk where "BACKTICK \<equiv> Tk ''BACKTICK''"
abbreviation CARET :: tk where "CARET \<equiv> Tk ''CARET''"
abbreviation COLON :: tk where "COLON \<equiv> Tk ''COLON''"
abbreviation COMMA :: tk where "COMMA \<equiv> Tk ''COMMA''"
abbreviation DOLLAR :: tk where "DOLLAR \<equiv> Tk ''DOLLAR''"
abbreviation DOT :: tk where "DOT \<equiv> Tk ''DOT''"
abbreviation EQUALS :: tk where "EQUALS \<equiv> Tk ''EQUALS''"
abbreviation EXCLAMATION :: tk where "EXCLAMATION \<equiv> Tk ''EXCLAMATION''"
abbreviation HYPHEN :: tk where "HYPHEN \<equiv> Tk ''HYPHEN''"
abbreviation PERCENT :: tk where "PERCENT \<equiv> Tk ''PERCENT''"
abbreviation PIPE :: tk where "PIPE \<equiv> Tk ''PIPE''"
abbreviation PLUS :: tk where "PLUS \<equiv> Tk ''PLUS''"
abbreviation POUND :: tk where "POUND \<equiv> Tk ''POUND''"
abbreviation QUERY :: tk where "QUERY \<equiv> Tk ''QUERY''"
abbreviation QUOTE :: tk where "QUOTE \<equiv> Tk ''QUOTE''"
abbreviation SLASH :: tk where "SLASH \<equiv> Tk ''SLASH''"
abbreviation SEMI :: tk where "SEMI \<equiv> Tk ''SEMI''"
abbreviation TILDE :: tk where "TILDE \<equiv> Tk ''TILDE''"
abbreviation UNDERSCORE :: tk where "UNDERSCORE \<equiv> Tk ''UNDERSCORE''"
abbreviation BACKSLASH :: tk where "BACKSLASH \<equiv> Tk ''BACKSLASH''"
abbreviation FULLWIDTHMIDDLEDOT :: tk where "FULLWIDTHMIDDLEDOT \<equiv> Tk ''FULLWIDTHMIDDLEDOT''"
abbreviation NUM :: tk where "NUM \<equiv> Tk ''NUM''"
abbreviation ASCIINUMERICAL :: tk where "ASCIINUMERICAL \<equiv> Tk ''ASCIINUMERICAL''"
abbreviation ALPHANUMERICAL :: tk where "ALPHANUMERICAL \<equiv> Tk ''ALPHANUMERICAL''"
abbreviation WORD :: tk where "WORD \<equiv> Tk ''WORD''"
abbreviation UWORD :: tk where "UWORD \<equiv> Tk ''UWORD''"
abbreviation NL :: tk where "NL \<equiv> Tk ''NL''"
abbreviation WS :: tk where "WS \<equiv> Tk ''WS''"
abbreviation EMOJI :: tk where "EMOJI \<equiv> Tk ''EMOJI''"
abbreviation TLD :: tk where "TLD \<equiv> Tk ''TLD''"
abbreviation UTLD :: tk where "UTLD \<equiv> Tk ''UTLD''"
abbreviation SCHEME :: tk where "SCHEME \<equiv> Tk ''SCHEME''"
abbreviation SLASH_SCHEME :: tk where "SLASH_SCHEME \<equiv> Tk ''SLASH_SCHEME''"
abbreviation LOCALHOST :: tk where "LOCALHOST \<equiv> Tk ''LOCALHOST''"
abbreviation SYM :: tk where "SYM \<equiv> Tk ''SYM''"

definition symbols :: "(char16 \<times> tk) list" where
  "symbols =
     [(0x0027, APOSTROPHE),
      (0x007b, OPENBRACE),
      (0x007d, CLOSEBRACE),
      (0x005b, OPENBRACKET),
      (0x005d, CLOSEBRACKET),
      (0x0028, OPENPAREN),
      (0x0029, CLOSEPAREN),
      (0x003c, OPENANGLEBRACKET),
      (0x003e, CLOSEANGLEBRACKET),
      (0xff08, FULLWIDTHLEFTPAREN),
      (0xff09, FULLWIDTHRIGHTPAREN),
      (0x300c, LEFTCORNERBRACKET),
      (0x300d, RIGHTCORNERBRACKET),
      (0x300e, LEFTWHITECORNERBRACKET),
      (0x300f, RIGHTWHITECORNERBRACKET),
      (0xff1c, FULLWIDTHLESSTHAN),
      (0xff1e, FULLWIDTHGREATERTHAN),
      (0x0026, AMPERSAND),
      (0x002a, ASTERISK),
      (0x0040, AT),
      (0x0060, BACKTICK),
      (0x005e, CARET),
      (0x003a, COLON),
      (0x002c, COMMA),
      (0x0024, DOLLAR),
      (0x002e, DOT),
      (0x003d, EQUALS),
      (0x0021, EXCLAMATION),
      (0x002d, HYPHEN),
      (0x0025, PERCENT),
      (0x007c, PIPE),
      (0x002b, PLUS),
      (0x0023, POUND),
      (0x003f, QUERY),
      (0x0022, QUOTE),
      (0x002f, SLASH),
      (0x003b, SEMI),
      (0x007e, TILDE),
      (0x005f, UNDERSCORE),
      (0x005c, BACKSLASH),
      (0x30fb, FULLWIDTHMIDDLEDOT)]"

subsection \<open>init (scanner.mjs, lines 42-206)\<close>

abbreviation CR :: jsstring where "CR \<equiv> [0x0d]"
abbreviation LF :: jsstring where "LF \<equiv> [0x0a]"
abbreviation EMOJI_VARIATION :: jsstring where "EMOJI_VARIATION \<equiv> [0xfe0f]"
abbreviation EMOJI_JOINER :: jsstring where "EMOJI_JOINER \<equiv> [0x200d]"
abbreviation OBJECT_REPLACEMENT :: jsstring where "OBJECT_REPLACEMENT \<equiv> [0xfffc]"

abbreviation Start :: nat where "Start \<equiv> 0"

definition new_fsm :: fsm where
  "new_fsm = snd (alloc \<lparr>heap = (\<lambda>q. new_State None), count = 0, groups = (\<lambda>k. [])\<rparr> (new_State None))"

definition sym_step :: "fsm \<Rightarrow> char16 \<times> tk \<Rightarrow> fsm" where
  "sym_step F x = snd (tt F Start [fst x] (NextToken (snd x)) [])"

definition init_symbols :: "fsm \<Rightarrow> fsm" where
  "init_symbols F = foldl sym_step F symbols"

definition init_words :: "fsm \<Rightarrow> (nat \<times> nat \<times> nat \<times> nat \<times> nat) \<times> fsm" where
  "init_words F0 =
     (let (Num, F) = tr F0 Start re_DIGIT (NextToken NUM) [numeric];
          (_, F) = tr F Num re_DIGIT (NextState Num) [];
          (Asciinumeric, F) = tr F Num re_ASCII_LETTER (NextToken ASCIINUMERICAL) [asciinumeric];
          (Alphanumeric, F) = tr F Num re_LETTER (NextToken ALPHANUMERICAL) [alphanumeric];
          (Word, F) = tr F Start re_ASCII_LETTER (NextToken WORD) [ascii];
          (_, F) = tr F Word re_DIGIT (NextState Asciinumeric) [];
          (_, F) = tr F Word re_ASCII_LETTER (NextState Word) [];
          (_, F) = tr F Asciinumeric re_DIGIT (NextState Asciinumeric) [];
          (_, F) = tr F Asciinumeric re_ASCII_LETTER (NextState Asciinumeric) [];
          (UWord, F) = tr F Start re_LETTER (NextToken UWORD) [alpha];
          (_, F) = tr F UWord re_ASCII_LETTER NoNext [];
          (_, F) = tr F UWord re_DIGIT (NextState Alphanumeric) [];
          (_, F) = tr F UWord re_LETTER (NextState UWord) [];
          (_, F) = tr F Alphanumeric re_DIGIT (NextState Alphanumeric) [];
          (_, F) = tr F Alphanumeric re_ASCII_LETTER NoNext [];
          (_, F) = tr F Alphanumeric re_LETTER (NextState Alphanumeric) []
      in ((Num, Asciinumeric, Alphanumeric, Word, UWord), F))"

definition init_whitespace :: "fsm \<Rightarrow> fsm" where
  "init_whitespace F0 =
     (let (Nl, F) = tt F0 Start LF (NextToken NL) [whitespace];
          (Cr, F) = tt F Start CR (NextToken WS) [whitespace];
          (Ws, F) = tr F Start re_SPACE (NextToken WS) [whitespace];
          (_, F) = tt F Start OBJECT_REPLACEMENT (NextState Ws) [];
          (_, F) = tt F Cr LF (NextState Nl) [];
          (_, F) = tt F Cr OBJECT_REPLACEMENT (NextState Ws) [];
          (_, F) = tr F Cr re_SPACE (NextState Ws) [];
          (_, F) = tt F Ws CR NoNext [];
          (_, F) = tt F Ws LF NoNext [];
          (_, F) = tr F Ws re_SPACE (NextState Ws) [];
          (_, F) = tt F Ws OBJECT_REPLACEMENT (NextState Ws) []
      in F)"

definition init_emoji :: "fsm \<Rightarrow> fsm" where
  "init_emoji F0 =
     (let (Emoji, F) = tr F0 Start re_EMOJI (NextToken EMOJI) [emoji];
          (_, F) = tt F Emoji [0x23] NoNext [];
          (_, F) = tr F Emoji re_EMOJI (NextState Emoji) [];
          (_, F) = tt F Emoji EMOJI_VARIATION (NextState Emoji) [];
          (EmojiJoiner, F) = tt F Emoji EMOJI_JOINER NoNext [];
          (_, F) = tt F EmojiJoiner [0x23] NoNext [];
          (_, F) = tr F EmojiJoiner re_EMOJI (NextState Emoji) []
      in F)"

text \<open>The side transitions given to every node of a chain (lines 151-159).\<close>

definition wordjr :: "nat \<Rightarrow> nat \<Rightarrow> (cls \<times> nat option) list" where
  "wordjr Word Asciinumeric = [(re_ASCII_LETTER, Some Word), (re_DIGIT, Some Asciinumeric)]"

definition uwordjr :: "nat \<Rightarrow> nat \<Rightarrow> (cls \<times> nat option) list" where
  "uwordjr UWord Alphanumeric =
     [(re_ASCII_LETTER, None), (re_LETTER, Some UWord), (re_DIGIT, Some Alphanumeric)]"

text \<open>An ASCII string literal of the source as a string of code units.\<close>

definition lit :: "string \<Rightarrow> jsstring" where
  "lit s = map (\<lambda>c. of_nat (of_char c)) s"

text \<open>The two loops over the tables (lines 160-165).\<close>

definition register_words :: "fsm \<Rightarrow> jsstring list \<Rightarrow> tk \<Rightarrow> tk \<Rightarrow> (cls \<times> nat option) list \<Rightarrow> fsm" where
  "register_words F ws tok defaultt jr0 = foldl (\<lambda>F w. snd (fastts F Start w tok defaultt jr0)) F ws"

text \<open>
  \<open>customSchemes.sort((a, b) => (a[0] > b[0] ? 1 : -1))\<close>. Strings compare
  lexicographically by code units. The sort itself is the language's; it is
  modelled as an insertion sort that asks the comparator.
\<close>

definition compare_schemes :: "jsstring \<times> bool \<Rightarrow> jsstring \<times> bool \<Rightarrow> int" where
  "compare_schemes a b = (if fst a > fst b then 1 else - 1)"

fun insert_scheme :: "jsstring \<times> bool \<Rightarrow> (jsstring \<times> bool) list \<Rightarrow> (jsstring \<times> bool) list" where
  "insert_scheme a [] = [a]"
| "insert_scheme a (b # bs) =
     (if compare_schemes a b > 0 then b # insert_scheme a bs else a # b # bs)"

definition sort_schemes :: "(jsstring \<times> bool) list \<Rightarrow> (jsstring \<times> bool) list" where
  "sort_schemes customSchemes = foldr insert_scheme customSchemes []"

text \<open>The flags of a custom scheme (lines 186-195), in the order the object receives them.\<close>

definition scheme_flags :: "(cls \<Rightarrow> jsstring \<Rightarrow> bool) \<Rightarrow> jsstring \<Rightarrow> bool \<Rightarrow> flag list" where
  "scheme_flags test sch optionalSlashSlash =
     (if optionalSlashSlash then [scheme] else [slashscheme]) @
     (if 0x2d \<in> set sch then [domain]
      else if \<not> test re_ASCII_LETTER sch then [numeric]
      else if test re_DIGIT sch then [asciinumeric]
      else [ascii])"

definition register_scheme :: "(cls \<Rightarrow> jsstring \<Rightarrow> bool) \<Rightarrow> fsm \<Rightarrow> jsstring \<times> bool \<Rightarrow> fsm" where
  "register_scheme test F x =
     snd (ts test F Start (fst x) (Custom (fst x)) (scheme_flags test (fst x) (snd x)))"

definition register_customSchemes :: "(cls \<Rightarrow> jsstring \<Rightarrow> bool) \<Rightarrow> fsm \<Rightarrow> (jsstring \<times> bool) list \<Rightarrow> fsm" where
  "register_customSchemes test F customSchemes =
     foldl (register_scheme test) F (sort_schemes customSchemes)"

text \<open>\<open>Start.jd = new State(tk.SYM)\<close> (line 204).\<close>

definition set_default :: "fsm \<Rightarrow> fsm" where
  "set_default F =
     (let (n, F1) = alloc F (new_State (Some SYM))
      in F1\<lparr>heap := (heap F1)(Start := (heap F1 Start)\<lparr>jd := Some n\<rparr>)\<rparr>)"

text \<open>Lines 160-201, with the side transitions built from the named states.\<close>

definition init_register :: "(cls \<Rightarrow> jsstring \<Rightarrow> bool) \<Rightarrow> jsstring list \<Rightarrow> jsstring list
    \<Rightarrow> (jsstring \<times> bool) list \<Rightarrow> (cls \<times> nat option) list \<Rightarrow> (cls \<times> nat option) list \<Rightarrow> fsm \<Rightarrow> fsm" where
  "init_register test tlds utlds customSchemes wjr ujr F0 =
     (let F = register_words F0 tlds TLD WORD wjr;
          F = register_words F utlds UTLD UWORD ujr;
          F = addToGroups TLD [tld, ascii] F;
          F = addToGroups UTLD [utld, alpha] F;
          F = snd (fastts F Start (lit ''file'') SCHEME WORD wjr);
          F = snd (fastts F Start (lit ''mailto'') SCHEME WORD wjr);
          F = snd (fastts F Start (lit ''http'') SLASH_SCHEME WORD wjr);
          F = snd (fastts F Start (lit ''https'') SLASH_SCHEME WORD wjr);
          F = snd (fastts F Start (lit ''ftp'') SLASH_SCHEME WORD wjr);
          F = snd (fastts F Start (lit ''ftps'') SLASH_SCHEME WORD wjr);
          F = addToGroups SCHEME [scheme, ascii] F;
          F = addToGroups SLASH_SCHEME [slashscheme, ascii] F;
          F = register_customSchemes test F customSchemes;
          F = snd (ts test F Start (lit ''localhost'') LOCALHOST [ascii])
      in F)"

definition init :: "(cls \<Rightarrow> jsstring \<Rightarrow> bool) \<Rightarrow> jsstring list \<Rightarrow> jsstring list
    \<Rightarrow> (jsstring \<times> bool) list \<Rightarrow> fsm" where
  "init test tlds utlds customSchemes =
     (let F = init_symbols new_fsm;
          ((Num, Asciinumeric, Alphanumeric, Word, UWord), F) = init_words F;
          F = init_whitespace F;
          F = init_emoji F
      in set_default (init_register test tlds utlds customSchemes
           (wordjr Word Asciinumeric) (uwordjr UWord Alphanumeric) F))"

text \<open>\<open>run(start, str)\<close> on a machine built by \<open>init\<close>.\<close>

definition run :: "(cls \<Rightarrow> jsstring \<Rightarrow> bool) \<Rightarrow> fsm \<Rightarrow> jsstring \<Rightarrow> error + tk token list" where
  "run test F str = run_with (go test (heap F)) (\<lambda>q. t (heap F q)) Start str"

lemma sym_step_eq:
  "0 < count F \<Longrightarrow> sym_step F (c, tok) =
     F\<lparr>heap := (heap F)(count F := new_State (Some tok),
                     Start := (heap F Start)\<lparr>j := (j (heap F Start))([c] \<mapsto> count F)\<rparr>),
       count := count F + 1\<rparr>"
  by (simp add: sym_step_def tt_def alloc_def set_j_def addToGroups_def)

definition after_symbols :: "fsm \<Rightarrow> (char16 \<times> tk) list \<Rightarrow> fsm" where
  "after_symbols F syms =
     F\<lparr>heap := (\<lambda>q. if q = Start
                     then (heap F Start)\<lparr>j := (j (heap F Start))
                             (map (\<lambda>x. [fst x]) syms [\<mapsto>] [count F..<count F + length syms])\<rparr>
                     else if count F \<le> q \<and> q < count F + length syms
                     then new_State (Some (snd (syms ! (q - count F))))
                     else heap F q),
       count := count F + length syms\<rparr>"

lemma symbols_fold:
  "0 < count F \<Longrightarrow> foldl sym_step F syms = after_symbols F syms"
proof (induction syms arbitrary: F)
  case Nil
  then show ?case by (cases F) (auto simp: fun_eq_iff after_symbols_def)
next
  case (Cons x syms)
  obtain c tok where x: "x = (c, tok)" by (cases x)
  let ?F = "sym_step F (c, tok)"
  have pos: "0 < count ?F" using Cons.prems by (simp add: sym_step_eq)
  have upt: "\<And>n k. [n..<Suc (n + k)] = n # [Suc n..<Suc (n + k)]"
    by (subst upt_rec) simp
  have "after_symbols ?F syms = after_symbols F ((c, tok) # syms)"
    unfolding after_symbols_def sym_step_eq [OF Cons.prems]
    using Cons.prems
    apply (cases F)
    apply (auto simp: upt fun_eq_iff nth_Cons' simp del: upt_Suc)
    done
  then show ?case using Cons.IH [OF pos] by (simp add: x)
qed


lemma tt_NextToken:
  "tt \<lparr>heap = h, count = n, groups = g\<rparr> src input (NextToken tok) flags =
     (n, \<lparr>heap = h(n := new_State (Some tok),
                    src := ((h(n := new_State (Some tok))) src)
                             \<lparr>j := (j ((h(n := new_State (Some tok))) src))(input \<mapsto> n)\<rparr>),
          count = n + 1,
          groups = foldl (\<lambda>g k. if tok \<in> set (g k) then g else g(k := g k @ [tok])) g flags\<rparr>)"
  by (simp add: tt_def alloc_def set_j_def addToGroups_def)

lemma tt_NextState:
  "tt \<lparr>heap = h, count = n, groups = g\<rparr> src input (NextState m) flags =
     (m, \<lparr>heap = h(src := (h src)\<lparr>j := (j (h src))(input \<mapsto> m)\<rparr>), count = n, groups = g\<rparr>)"
  by (simp add: tt_def set_j_def)

lemma tt_NoNext:
  "tt \<lparr>heap = h, count = n, groups = g\<rparr> src input NoNext flags =
     (case j (h src) input of
        Some m \<Rightarrow> (m, \<lparr>heap = h, count = n, groups = g\<rparr>)
      | None \<Rightarrow> (n, \<lparr>heap = h(n := new_State None,
                    src := ((h(n := new_State None)) src)
                             \<lparr>j := (j ((h(n := new_State None)) src))(input \<mapsto> n)\<rparr>),
                  count = n + 1, groups = g\<rparr>))"
  by (simp add: tt_def alloc_def set_j_def split: option.splits)

lemma tr_NextToken:
  "tr \<lparr>heap = h, count = n, groups = g\<rparr> src r (NextToken tok) flags =
     (n, \<lparr>heap = h(n := new_State (Some tok),
                    src := ((h(n := new_State (Some tok))) src)
                             \<lparr>jr := jr ((h(n := new_State (Some tok))) src) @ [(r, Some n)]\<rparr>),
          count = n + 1,
          groups = foldl (\<lambda>g k. if tok \<in> set (g k) then g else g(k := g k @ [tok])) g flags\<rparr>)"
  by (simp add: tr_def alloc_def push_jr_def addToGroups_def)

lemma tr_NextState:
  "tr \<lparr>heap = h, count = n, groups = g\<rparr> src r (NextState m) flags =
     (m, \<lparr>heap = h(src := (h src)\<lparr>jr := jr (h src) @ [(r, Some m)]\<rparr>), count = n, groups = g\<rparr>)"
  by (simp add: tr_def push_jr_def)

lemma tr_NoNext:
  "tr \<lparr>heap = h, count = n, groups = g\<rparr> src r NoNext flags =
     (case find (\<lambda>(r', m). r' = r \<and> m \<noteq> None) (jr (h src)) of
        Some (r', Some m) \<Rightarrow> (m, \<lparr>heap = h, count = n, groups = g\<rparr>)
      | _ \<Rightarrow> (n, \<lparr>heap = h(n := new_State None,
                    src := ((h(n := new_State None)) src)
                             \<lparr>jr := jr ((h(n := new_State None)) src) @ [(r, Some n)]\<rparr>),
                  count = n + 1, groups = g\<rparr>))"
  by (simp add: tr_def alloc_def push_jr_def split: option.splits prod.splits)

lemmas eval_ops = tt_NextToken tt_NextState tt_NoNext tr_NextToken tr_NextState tr_NoNext

subsection \<open>The states that every call of init creates first\<close>

abbreviation Num :: nat where "Num \<equiv> 42"
abbreviation Asciinumeric :: nat where "Asciinumeric \<equiv> 43"
abbreviation Alphanumeric :: nat where "Alphanumeric \<equiv> 44"
abbreviation Word :: nat where "Word \<equiv> 45"
abbreviation UWord :: nat where "UWord \<equiv> 46"
abbreviation Nl :: nat where "Nl \<equiv> 49"
abbreviation Cr :: nat where "Cr \<equiv> 50"
abbreviation Ws :: nat where "Ws \<equiv> 51"
abbreviation Emoji :: nat where "Emoji \<equiv> 54"
abbreviation EmojiJoiner :: nat where "EmojiJoiner \<equiv> 56"

definition J1 :: "jsstring \<rightharpoonup> nat" where
  "J1 = Map.empty(map (\<lambda>x. [fst x]) symbols [\<mapsto>] [1..<42])"

definition H1 :: "nat \<Rightarrow> State" where
  "H1 = (\<lambda>q. if q = Start then \<lparr>j = J1, jr = [], jd = None, t = None\<rparr>
             else if 1 \<le> q \<and> q < 42 then new_State (Some (snd (symbols ! (q - 1))))
             else new_State None)"

definition H4 :: "nat \<Rightarrow> State" where
  "H4 = H1
     (Start := \<lparr>j = J1(LF \<mapsto> Nl, CR \<mapsto> Cr, OBJECT_REPLACEMENT \<mapsto> Ws),
                jr = [(re_DIGIT, Some Num), (re_ASCII_LETTER, Some Word), (re_LETTER, Some UWord),
                      (re_SPACE, Some Ws), (re_EMOJI, Some Emoji)],
                jd = None, t = None\<rparr>,
      Num := \<lparr>j = Map.empty,
              jr = [(re_DIGIT, Some Num), (re_ASCII_LETTER, Some Asciinumeric), (re_LETTER, Some Alphanumeric)],
              jd = None, t = Some NUM\<rparr>,
      Asciinumeric := \<lparr>j = Map.empty,
              jr = [(re_DIGIT, Some Asciinumeric), (re_ASCII_LETTER, Some Asciinumeric)],
              jd = None, t = Some ASCIINUMERICAL\<rparr>,
      Alphanumeric := \<lparr>j = Map.empty,
              jr = [(re_DIGIT, Some Alphanumeric), (re_ASCII_LETTER, Some 48), (re_LETTER, Some Alphanumeric)],
              jd = None, t = Some ALPHANUMERICAL\<rparr>,
      Word := \<lparr>j = Map.empty, jr = [(re_DIGIT, Some Asciinumeric), (re_ASCII_LETTER, Some Word)],
              jd = None, t = Some WORD\<rparr>,
      UWord := \<lparr>j = Map.empty,
              jr = [(re_ASCII_LETTER, Some 47), (re_DIGIT, Some Alphanumeric), (re_LETTER, Some UWord)],
              jd = None, t = Some UWORD\<rparr>,
      47 := new_State None,
      48 := new_State None,
      Nl := new_State (Some NL),
      Cr := \<lparr>j = Map.empty(LF \<mapsto> Nl, OBJECT_REPLACEMENT \<mapsto> Ws), jr = [(re_SPACE, Some Ws)],
             jd = None, t = Some WS\<rparr>,
      Ws := \<lparr>j = Map.empty(CR \<mapsto> 52, LF \<mapsto> 53, OBJECT_REPLACEMENT \<mapsto> Ws), jr = [(re_SPACE, Some Ws)],
             jd = None, t = Some WS\<rparr>,
      52 := new_State None,
      53 := new_State None,
      Emoji := \<lparr>j = Map.empty([0x23] \<mapsto> 55, EMOJI_VARIATION \<mapsto> Emoji, EMOJI_JOINER \<mapsto> EmojiJoiner),
                jr = [(re_EMOJI, Some Emoji)], jd = None, t = Some EMOJI\<rparr>,
      55 := new_State None,
      EmojiJoiner := \<lparr>j = Map.empty([0x23] \<mapsto> 57), jr = [(re_EMOJI, Some Emoji)], jd = None, t = None\<rparr>,
      57 := new_State None)"

definition G4 :: "flag \<Rightarrow> tk list" where
  "G4 = (\<lambda>k. [])(numeric := [NUM], asciinumeric := [ASCIINUMERICAL], alphanumeric := [ALPHANUMERICAL],
          ascii := [WORD], alpha := [UWORD], whitespace := [NL, WS], emoji := [EMOJI])"

definition F4 :: fsm where
  "F4 = \<lparr>heap = H4, count = 58, groups = G4\<rparr>"

lemma length_symbols: "length symbols = 41"
  by (simp add: symbols_def)

lemma init_symbols_new: "init_symbols new_fsm = \<lparr>heap = H1, count = 42, groups = (\<lambda>k. [])\<rparr>"
  by (simp add: init_symbols_def symbols_fold new_fsm_def alloc_def after_symbols_def length_symbols
      H1_def J1_def new_State_def fun_eq_iff)

lemma H1_Start: "H1 Start = \<lparr>j = J1, jr = [], jd = None, t = None\<rparr>"
  by (simp add: H1_def)

lemma init_words_eval:
  "fst (init_words \<lparr>heap = H1, count = 42, groups = (\<lambda>k. [])\<rparr>) = (Num, Asciinumeric, Alphanumeric, Word, UWord)"
  by (simp add: init_words_def eval_ops H1_Start new_State_def Let_def)

lemma init_fixed_eval:
  "init_emoji (init_whitespace (snd (init_words \<lparr>heap = H1, count = 42, groups = (\<lambda>k. [])\<rparr>))) = F4"
  unfolding F4_def H4_def G4_def
  by (simp add: init_words_def init_whitespace_def init_emoji_def eval_ops H1_Start new_State_def Let_def
      fun_eq_iff)

lemma init_eq:
  "init test tlds utlds customSchemes =
     set_default (init_register test tlds utlds customSchemes
       (wordjr Word Asciinumeric) (uwordjr UWord Alphanumeric) F4)"
proof -
  obtain F where F: "init_words \<lparr>heap = H1, count = 42, groups = (\<lambda>k. [])\<rparr>
      = ((Num, Asciinumeric, Alphanumeric, Word, UWord), F)"
    using init_words_eval by (metis prod.collapse)
  have "init_emoji (init_whitespace F) = F4" using init_fixed_eval F by simp
  then show ?thesis by (simp add: init_def init_symbols_new F)
qed

section \<open>What registration keeps\<close>

definition trie :: "nat set \<Rightarrow> fsm \<Rightarrow> nat set" where
  "trie P F = {q. 0 < q \<and> q < count F \<and> q \<notin> P}"

definition inv :: "nat set \<Rightarrow> jsstring set \<Rightarrow> (nat \<Rightarrow> State) \<Rightarrow> fsm \<Rightarrow> bool" where
  "inv P X H F \<longleftrightarrow>
     0 < count F \<and> Start \<notin> P \<and> (\<forall>q \<in> P. q < count F \<and> heap F q = H q)
     \<and> (\<forall>c \<in> X. j (heap F Start) c = j (H Start) c)
     \<and> jr (heap F Start) = jr (H Start) \<and> jd (heap F Start) = jd (H Start)
     \<and> t (heap F Start) = t (H Start)
     \<and> (\<forall>c n. c \<notin> X \<longrightarrow> j (heap F Start) c = Some n \<longrightarrow> n \<in> trie P F)
     \<and> (\<forall>q \<in> trie P F. \<forall>c n. j (heap F q) c = Some n \<longrightarrow> n \<in> trie P F)"

definition ext :: "fsm \<Rightarrow> fsm \<Rightarrow> bool" where
  "ext F F' \<longleftrightarrow>
     count F \<le> count F'
     \<and> (\<forall>q < count F. t (heap F' q) = t (heap F q) \<and> jr (heap F' q) = jr (heap F q)
            \<and> jd (heap F' q) = jd (heap F q) \<and> dom (j (heap F q)) \<subseteq> dom (j (heap F' q)))
     \<and> (\<forall>k. set (groups F k) \<subseteq> set (groups F' k))"

lemma ext_refl [simp]: "ext F F"
  by (simp add: ext_def)

lemma ext_trans:
  assumes "ext F F'" "ext F' F''"
  shows "ext F F''"
proof -
  have c: "count F \<le> count F'" "count F' \<le> count F''" using assms by (auto simp: ext_def)
  have "t (heap F'' q) = t (heap F q) \<and> jr (heap F'' q) = jr (heap F q)
        \<and> jd (heap F'' q) = jd (heap F q) \<and> dom (j (heap F q)) \<subseteq> dom (j (heap F'' q))"
    if q: "q < count F" for q
  proof -
    have q': "q < count F'" using q c by simp
    from assms(1) q have a: "t (heap F' q) = t (heap F q)" "jr (heap F' q) = jr (heap F q)"
      "jd (heap F' q) = jd (heap F q)" "dom (j (heap F q)) \<subseteq> dom (j (heap F' q))"
      by (auto simp: ext_def)
    from assms(2) q' have b: "t (heap F'' q) = t (heap F' q)" "jr (heap F'' q) = jr (heap F' q)"
      "jd (heap F'' q) = jd (heap F' q)" "dom (j (heap F' q)) \<subseteq> dom (j (heap F'' q))"
      by (auto simp: ext_def)
    show ?thesis using a b by auto
  qed
  moreover have "set (groups F k) \<subseteq> set (groups F'' k)" for k
    using assms unfolding ext_def by (meson subset_trans)
  ultimately show ?thesis using c by (simp add: ext_def)
qed

definition link :: "fsm \<Rightarrow> State \<Rightarrow> nat \<Rightarrow> jsstring \<Rightarrow> fsm" where
  "link F st src key = set_j (snd (alloc F st)) src key (count F)"

lemma heap_link:
  "heap (link F st src key) =
     (heap F)(count F := st, src := (((heap F)(count F := st)) src)\<lparr>j := (j (((heap F)(count F := st)) src))(key \<mapsto> count F)\<rparr>)"
  by (simp add: link_def alloc_def set_j_def)

lemma count_link [simp]: "count (link F st src key) = count F + 1"
  by (simp add: link_def alloc_def set_j_def)

lemma groups_link [simp]: "groups (link F st src key) = groups F"
  by (simp add: link_def alloc_def set_j_def)

lemma trie_link: "q \<in> trie P F \<Longrightarrow> q \<in> trie P (link F st src key)"
  by (simp add: trie_def)

lemma invD:
  assumes "inv P X H F"
  shows "0 < count F" "Start \<notin> P" "\<And>q. q \<in> P \<Longrightarrow> q < count F" "\<And>q. q \<in> P \<Longrightarrow> heap F q = H q"
    "\<And>c. c \<in> X \<Longrightarrow> j (heap F Start) c = j (H Start) c"
    "jr (heap F Start) = jr (H Start)" "jd (heap F Start) = jd (H Start)" "t (heap F Start) = t (H Start)"
    "\<And>c n. c \<notin> X \<Longrightarrow> j (heap F Start) c = Some n \<Longrightarrow> n \<in> trie P F"
    "\<And>q c n. q \<in> trie P F \<Longrightarrow> j (heap F q) c = Some n \<Longrightarrow> n \<in> trie P F"
  using assms unfolding inv_def by blast+

lemma inv_link:
  assumes "inv P X H F" "j st = Map.empty" "src \<in> trie P F \<or> (src = Start \<and> key \<notin> X)"
  shows "inv P X H (link F st src key)" "count F \<in> trie P (link F st src key)"
proof -
  note I = invD [OF assms(1)]
  have cP: "count F \<notin> P" "0 < count F" using I(1) I(3) [of "count F"] by auto
  then show "count F \<in> trie P (link F st src key)" by (simp add: trie_def)
  have sP: "src \<notin> P" "src < count F" using I(1,2) assms(3) by (auto simp: trie_def)
  have h0: "heap (link F st src key) Start
      = (if src = Start then (heap F Start)\<lparr>j := (j (heap F Start))(key \<mapsto> count F)\<rparr> else heap F Start)"
    using cP by (simp add: heap_link)
  have hq: "heap (link F st src key) q = heap F q" if "q \<in> P" for q
    using that cP sP by (auto simp: heap_link)
  have tr: "trie P (link F st src key) = insert (count F) (trie P F)"
    using cP by (auto simp: trie_def)
  have hj: "j (heap (link F st src key) q) c = Some n \<Longrightarrow>
      n = count F \<or> (q \<noteq> count F \<and> j (heap F q) c = Some n \<and> (q \<noteq> src \<or> c \<noteq> key))" for q c n
    using assms(2) by (auto simp: heap_link split: if_splits)
  have 1: "0 < count (link F st src key) \<and> Start \<notin> P
      \<and> (\<forall>q \<in> P. q < count (link F st src key) \<and> heap (link F st src key) q = H q)"
    using I(1,2) I(3) I(4) hq by (auto simp: less_Suc_eq)
  have 2: "(\<forall>c \<in> X. j (heap (link F st src key) Start) c = j (H Start) c)
     \<and> jr (heap (link F st src key) Start) = jr (H Start) \<and> jd (heap (link F st src key) Start) = jd (H Start)
     \<and> t (heap (link F st src key) Start) = t (H Start)"
    using I(5,6,7,8) assms(3) unfolding h0 by (auto simp: trie_def)
  have 3: "\<forall>c n. c \<notin> X \<longrightarrow> j (heap (link F st src key) Start) c = Some n
      \<longrightarrow> n \<in> trie P (link F st src key)"
    using I(9) hj [of Start] unfolding tr by blast
  have 4: "\<forall>q \<in> trie P (link F st src key). \<forall>c n. j (heap (link F st src key) q) c = Some n
      \<longrightarrow> n \<in> trie P (link F st src key)"
    using I(10) hj unfolding tr by (metis cP(1) insert_iff less_irrefl mem_Collect_eq trie_def)
  show "inv P X H (link F st src key)"
    using 1 2 3 4 unfolding inv_def by blast
qed

lemma ext_link: "src < count F \<Longrightarrow> ext F (link F st src key)"
  by (auto simp: ext_def heap_link)

lemma inv_addToGroups [simp]: "inv P X H (addToGroups tok flags F) = inv P X H F"
  by (simp add: inv_def addToGroups_def trie_def)

lemma set_groups_fold:
  "set (foldl (\<lambda>g k. if tok \<in> set (g k) then g else g(k := g k @ [tok])) g flags k')
     = set (g k') \<union> (if k' \<in> set flags then {tok} else {})"
  by (induction flags arbitrary: g) auto

lemma set_groups_addToGroups:
  "set (groups (addToGroups tok flags F) k) = set (groups F k) \<union> (if k \<in> set flags then {tok} else {})"
  by (simp add: addToGroups_def set_groups_fold)

lemma heap_addToGroups [simp]: "heap (addToGroups tok flags F) = heap F"
  and count_addToGroups [simp]: "count (addToGroups tok flags F) = count F"
  by (simp_all add: addToGroups_def)

lemma ext_addToGroups: "ext F (addToGroups tok flags F)"
  by (auto simp: ext_def set_groups_addToGroups)

lemma fastts_walk_link:
  "fastts_walk F src (c # d # rest) defaultt jr0 =
     (case j (heap F src) [c] of
        Some next \<Rightarrow> fastts_walk F next (d # rest) defaultt jr0
      | None \<Rightarrow> fastts_walk (link F ((new_State (Some defaultt))\<lparr>jr := jr0\<rparr>) src [c]) (count F)
                  (d # rest) defaultt jr0)"
  by (simp add: link_def alloc_def split: option.splits)

lemma fastts_link:
  "fastts F src input tok defaultt jr0 =
     (count (snd (fastts_walk F src input defaultt jr0)),
      link (snd (fastts_walk F src input defaultt jr0)) ((new_State (Some tok))\<lparr>jr := jr0\<rparr>)
        (fst (fastts_walk F src input defaultt jr0))
        (if input = [] then undefined_key else [last input]))"
  by (simp add: fastts_def link_def alloc_def split: prod.splits)

lemma tt_NoNext_link:
  "tt F src key NoNext flags =
     (case j (heap F src) key of
        Some n \<Rightarrow> (n, F)
      | None \<Rightarrow> (count F, link F (new_State None) src key))"
  by (simp add: tt_def link_def alloc_def split: option.splits)

lemma tt_NextToken_link:
  "tt F src key (NextToken tok) flags =
     (count F, addToGroups tok flags (link F (new_State (Some tok)) src key))"
  by (simp add: tt_def link_def alloc_def)

lemma j_new_State [simp]: "j (new_State tok) = Map.empty" "j ((new_State tok)\<lparr>jr := jr0\<rparr>) = Map.empty"
  by (simp_all add: new_State_def)

lemma trie_lt: "q \<in> trie P F \<Longrightarrow> q < count F"
  by (simp add: trie_def)

lemma trie_ext: "q \<in> trie P F \<Longrightarrow> ext F F' \<Longrightarrow> q \<in> trie P F'"
  by (auto simp: trie_def ext_def)

definition key_ok :: "jsstring set \<Rightarrow> jsstring \<Rightarrow> bool" where
  "key_ok X w = (if w = [] then undefined_key \<notin> X else [hd w] \<notin> X)"

lemma set_insert_scheme [simp]: "set (insert_scheme a bs) = insert a (set bs)"
  by (induction bs) auto

lemma set_sort_schemes [simp]: "set (sort_schemes cs) = set cs"
  unfolding sort_schemes_def by (induction cs) auto

definition tables_ok :: "jsstring set \<Rightarrow> jsstring list \<Rightarrow> jsstring list \<Rightarrow> (jsstring \<times> bool) list \<Rightarrow> bool" where
  "tables_ok X tlds utlds customSchemes \<longleftrightarrow>
     (\<forall>w \<in> set tlds \<union> set utlds. key_ok X w)
     \<and> (\<forall>x \<in> set customSchemes. fst x \<noteq> [] \<longrightarrow> [hd (fst x)] \<notin> X)
     \<and> [0x66] \<notin> X \<and> [0x6d] \<notin> X \<and> [0x68] \<notin> X \<and> [0x6c] \<notin> X"

lemma lit_simps:
  "lit ''file'' = [0x66, 0x69, 0x6c, 0x65]"
  "lit ''mailto'' = [0x6d, 0x61, 0x69, 0x6c, 0x74, 0x6f]"
  "lit ''http'' = [0x68, 0x74, 0x74, 0x70]"
  "lit ''https'' = [0x68, 0x74, 0x74, 0x70, 0x73]"
  "lit ''ftp'' = [0x66, 0x74, 0x70]"
  "lit ''ftps'' = [0x66, 0x74, 0x70, 0x73]"
  "lit ''localhost'' = [0x6c, 0x6f, 0x63, 0x61, 0x6c, 0x68, 0x6f, 0x73, 0x74]"
  by (simp_all add: lit_def)

lemma key_ok_Cons [simp]: "key_ok X (c # w) = ([c] \<notin> X)"
  by (simp add: key_ok_def)

inductive reg :: "nat set \<Rightarrow> jsstring set \<Rightarrow> (nat \<Rightarrow> State) \<Rightarrow> State set \<Rightarrow> bool
    \<Rightarrow> fsm \<Rightarrow> fsm \<Rightarrow> bool"
  for P :: "nat set" and X :: "jsstring set" and H :: "nat \<Rightarrow> State"
    and S :: "State set" and b :: bool and F :: fsm
where
  reg_refl: "inv P X H F \<Longrightarrow> reg P X H S b F F"
| reg_link: "reg P X H S b F F1 \<Longrightarrow> src \<in> trie P F1 \<or> (src = Start \<and> key \<notin> X) \<Longrightarrow>
     j st = Map.empty \<Longrightarrow> st \<in> S \<Longrightarrow> b \<or> src \<noteq> Start \<or> t st \<noteq> None \<Longrightarrow>
     reg P X H S b F (link F1 st src key)"
| reg_groups: "reg P X H S b F F1 \<Longrightarrow> reg P X H S b F (addToGroups tok flags F1)"

lemma reg_inv: "reg P X H S b F F' \<Longrightarrow> inv P X H F'"
  by (induction rule: reg.induct) (auto intro: inv_link(1))

lemma reg_ext: "reg P X H S b F F' \<Longrightarrow> ext F F'"
proof (induction rule: reg.induct)
  case reg_refl
  then show ?case by simp
next
  case (reg_link F1 src key st)
  have "src < count F1"
    using reg_link.hyps(2) invD(1) [OF reg_inv [OF reg_link.hyps(1)]] by (auto simp: trie_def)
  then show ?case using reg_link.IH ext_trans ext_link by blast
next
  case (reg_groups F1 tok flags)
  then show ?case using ext_trans ext_addToGroups by blast
qed

lemma reg_walk:
  assumes "reg P X H S b F F1" "src \<in> trie P F1 \<or> (src = Start \<and> (2 \<le> length w \<longrightarrow> [hd w] \<notin> X))"
    "(new_State (Some d))\<lparr>jr := jr0\<rparr> \<in> S"
  shows "reg P X H S b F (snd (fastts_walk F1 src w d jr0))
       \<and> (fst (fastts_walk F1 src w d jr0) \<in> trie P (snd (fastts_walk F1 src w d jr0))
            \<or> (fst (fastts_walk F1 src w d jr0) = src \<and> length w < 2))"
  using assms
proof (induction F1 src w d jr0 rule: fastts_walk.induct)
  case (1 F1 src defaultt jr0)
  then show ?case by simp
next
  case (2 F1 src c defaultt jr0)
  then show ?case by simp
next
  case (3 F1 src c v va defaultt jr0)
  note i = reg_inv [OF "3.prems"(1)]
  have k: "src \<in> trie P F1 \<or> (src = Start \<and> [c] \<notin> X)" using "3.prems"(2) by auto
  show ?case
  proof (cases "j (heap F1 src) [c]")
    case (Some n)
    have n: "n \<in> trie P F1"
      using k Some invD(9) [OF i, of "[c]" n] invD(10) [OF i, of src "[c]" n] by auto
    have eq: "fastts_walk F1 src (c # v # va) defaultt jr0 = fastts_walk F1 n (v # va) defaultt jr0"
      by (simp only: fastts_walk_link Some option.case)
    from "3.IH"(2) [OF Some "3.prems"(1) _ "3.prems"(3)] n
    have r: "reg P X H S b F (snd (fastts_walk F1 n (v # va) defaultt jr0))
        \<and> (fst (fastts_walk F1 n (v # va) defaultt jr0) \<in> trie P (snd (fastts_walk F1 n (v # va) defaultt jr0))
            \<or> (fst (fastts_walk F1 n (v # va) defaultt jr0) = n \<and> length (v # va) < 2))"
      by blast
    have "length (v # va) < 2 \<Longrightarrow> snd (fastts_walk F1 n (v # va) defaultt jr0) = F1"
      by (cases va) auto
    then have "fst (fastts_walk F1 n (v # va) defaultt jr0) \<in> trie P (snd (fastts_walk F1 n (v # va) defaultt jr0))"
      using r n by auto
    then show ?thesis unfolding eq using r by simp
  next
    case None
    let ?st = "(new_State (Some defaultt))\<lparr>jr := jr0\<rparr>"
    let ?F = "link F1 ?st src [c]"
    have st: "j ?st = Map.empty" "?st \<in> S" "t ?st \<noteq> None"
      using "3.prems"(3) by (simp_all add: new_State_def)
    have g: "reg P X H S b F ?F"
      by (rule reg_link [OF "3.prems"(1) k st(1,2)]) (simp add: new_State_def)
    have m: "count F1 \<in> trie P ?F" using inv_link(2) [OF i st(1) k] .
    have eq: "fastts_walk F1 src (c # v # va) defaultt jr0 = fastts_walk ?F (count F1) (v # va) defaultt jr0"
      by (simp only: fastts_walk_link None option.case)
    have al: "(count F1, snd (alloc F1 ?st)) = alloc F1 ?st" by (simp add: alloc_def)
    have lk: "set_j (snd (alloc F1 ?st)) src [c] (count F1) = ?F" by (simp add: link_def)
    from "3.IH"(1) [OF None refl al, unfolded lk, OF g _ "3.prems"(3)] m
    have r: "reg P X H S b F (snd (fastts_walk ?F (count F1) (v # va) defaultt jr0))
        \<and> (fst (fastts_walk ?F (count F1) (v # va) defaultt jr0)
              \<in> trie P (snd (fastts_walk ?F (count F1) (v # va) defaultt jr0))
            \<or> (fst (fastts_walk ?F (count F1) (v # va) defaultt jr0) = count F1 \<and> length (v # va) < 2))"
      by blast
    have "length (v # va) < 2 \<Longrightarrow> snd (fastts_walk ?F (count F1) (v # va) defaultt jr0) = ?F"
      by (cases va) auto
    then have "fst (fastts_walk ?F (count F1) (v # va) defaultt jr0)
              \<in> trie P (snd (fastts_walk ?F (count F1) (v # va) defaultt jr0))"
      using r m by auto
    then show ?thesis unfolding eq using r by simp
  qed
qed

lemma reg_fastts:
  assumes "reg P X H S b F F1" "key_ok X w" "(new_State (Some d))\<lparr>jr := jr0\<rparr> \<in> S"
    "(new_State (Some tok))\<lparr>jr := jr0\<rparr> \<in> S"
  shows "reg P X H S b F (snd (fastts F1 Start w tok d jr0))"
proof -
  let ?W = "fastts_walk F1 Start w d jr0"
  let ?key = "if w = [] then undefined_key else [last w]"
  have s: "Start \<in> trie P F1 \<or> (Start = Start \<and> (2 \<le> length w \<longrightarrow> [hd w] \<notin> X))"
    using assms(2) by (cases w) (auto simp: key_ok_def)
  note w = reg_walk [OF assms(1) s assms(3)]
  have k: "fst ?W \<in> trie P (snd ?W) \<or> (fst ?W = Start \<and> ?key \<notin> X)"
  proof (cases "fst ?W \<in> trie P (snd ?W)")
    case True
    then show ?thesis by simp
  next
    case False
    then have l: "fst ?W = Start" "length w < 2" using w by blast+
    have "?key \<notin> X"
    proof (cases w)
      case Nil
      then show ?thesis using assms(2) by (simp add: key_ok_def)
    next
      case (Cons c rest)
      then have "rest = []" using l(2) by simp
      then show ?thesis using assms(2) Cons by (simp add: key_ok_def)
    qed
    then show ?thesis using l(1) by simp
  qed
  let ?st = "(new_State (Some tok))\<lparr>jr := jr0\<rparr>"
  have eq: "snd (fastts F1 Start w tok d jr0) = link (snd ?W) ?st (fst ?W) ?key"
    by (simp only: fastts_link snd_conv)
  show ?thesis unfolding eq
    by (rule reg_link [OF conjunct1 [OF w] k _ assms(4)]) (simp_all add: new_State_def)
qed

lemma reg_weaken: "reg P X H S b F F' \<Longrightarrow> reg P X H S True F F'"
  by (induction rule: reg.induct) (auto intro: reg.intros)

lemma reg_dom:
  assumes "reg P X H S b F F'"
  shows "dom (j (heap F Start)) \<subseteq> dom (j (heap F' Start))"
proof -
  have "inv P X H F" using assms by (induction rule: reg.induct) auto
  then have "0 < count F" by (rule invD(1))
  then show ?thesis using reg_ext [OF assms] by (simp add: ext_def)
qed

lemma reg_base_inv: "reg P X H S b F F' \<Longrightarrow> inv P X H F"
  by (induction rule: reg.induct) auto

lemma reg_trans:
  "reg P X H S b F1 F2 \<Longrightarrow> reg P X H S b F F1 \<Longrightarrow> reg P X H S b F F2"
  by (induction rule: reg.induct) (auto intro: reg.intros)

lemma reg_register_words:
  "reg P X H S b F F1 \<Longrightarrow> \<forall>w \<in> set ws. key_ok X w \<Longrightarrow>
     (new_State (Some d))\<lparr>jr := jr0\<rparr> \<in> S \<Longrightarrow> (new_State (Some tok))\<lparr>jr := jr0\<rparr> \<in> S \<Longrightarrow>
     reg P X H S b F (register_words F1 ws tok d jr0)"
  unfolding register_words_def
proof (induction ws arbitrary: F1)
  case Nil
  then show ?case by simp
next
  case (Cons w ws)
  have "reg P X H S b F (snd (fastts F1 Start w tok d jr0))"
    using Cons.prems by (intro reg_fastts) auto
  then show ?case using Cons.IH Cons.prems(2,3,4) by simp
qed

definition first_keys :: "jsstring list \<Rightarrow> jsstring set" where
  "first_keys ws = {[hd w] | w. w \<in> set ws \<and> w \<noteq> []}"

lemma fastts_first_key:
  assumes "reg P X H S b F F1" "key_ok X w" "(new_State (Some d))\<lparr>jr := jr0\<rparr> \<in> S"
    "(new_State (Some tok))\<lparr>jr := jr0\<rparr> \<in> S" "w \<noteq> []"
  shows "[hd w] \<in> dom (j (heap (snd (fastts F1 Start w tok d jr0)) Start))"
proof -
  note i = reg_inv [OF assms(1)]
  obtain c rest where w: "w = c # rest" using assms(5) by (cases w) auto
  show ?thesis
  proof (cases rest)
    case Nil
    have "snd (fastts F1 Start [c] tok d jr0) = link F1 ((new_State (Some tok))\<lparr>jr := jr0\<rparr>) Start [c]"
      by (simp only: fastts_link snd_conv) simp
    then show ?thesis using w Nil invD(1) [OF i] by (simp add: heap_link)
  next
    case (Cons v va)
    let ?st = "(new_State (Some d))\<lparr>jr := jr0\<rparr>"
    let ?F = "case j (heap F1 Start) [c] of Some n \<Rightarrow> F1 | None \<Rightarrow> link F1 ?st Start [c]"
    let ?n = "case j (heap F1 Start) [c] of Some n \<Rightarrow> n | None \<Rightarrow> count F1"
    have k: "[c] \<notin> X" using assms(2) w by (simp add: key_ok_def)
    have g: "reg P X H S b F1 ?F"
    proof (cases "j (heap F1 Start) [c]")
      case None
      have "reg P X H S b F1 (link F1 ?st Start [c])"
        by (rule reg_link [OF reg_refl [OF i] _ _ assms(3)]) (use k in \<open>simp_all add: new_State_def\<close>)
      then show ?thesis using None by simp
    qed (simp add: reg_refl [OF i])
    have d0: "[c] \<in> dom (j (heap ?F Start))"
      using invD(1) [OF i] by (auto simp: heap_link split: option.splits)
    have n: "?n \<in> trie P ?F"
    proof (cases "j (heap F1 Start) [c]")
      case None
      have k': "Start \<in> trie P F1 \<or> (Start = Start \<and> [c] \<notin> X)" using k by simp
      show ?thesis using inv_link(2) [OF i _ k', of ?st] None by simp
    next
      case (Some n)
      then show ?thesis using invD(9) [OF i k, of n] by simp
    qed
    have eq: "fastts_walk F1 Start (c # v # va) d jr0 = fastts_walk ?F ?n (v # va) d jr0"
      by (simp only: fastts_walk_link) (simp split: option.splits)
    note r = reg_walk [OF reg_refl [OF reg_inv [OF g]] disjI1 [OF n] assms(3), where w = "v # va" and b = b]
    let ?W = "fastts_walk ?F ?n (v # va) d jr0"
    have pos: "fst ?W \<in> trie P (snd ?W)"
    proof (cases va)
      case Nil
      then show ?thesis using n by simp
    next
      case (Cons a as)
      then show ?thesis using r by simp
    qed
    have "reg P X H S b ?F (link (snd ?W) ((new_State (Some tok))\<lparr>jr := jr0\<rparr>) (fst ?W) [last (v # va)])"
      by (rule reg_link [OF conjunct1 [OF r] disjI1 [OF pos] _ assms(4)]) (simp_all add: new_State_def)
    moreover have "snd (fastts F1 Start w tok d jr0)
        = link (snd ?W) ((new_State (Some tok))\<lparr>jr := jr0\<rparr>) (fst ?W) [last (v # va)]"
      unfolding w Cons by (simp only: fastts_link snd_conv eq) simp
    ultimately have "reg P X H S b ?F (snd (fastts F1 Start w tok d jr0))"
      by simp
    from reg_dom [OF this] d0 show ?thesis using w by auto
  qed
qed

lemma register_words_first_keys:
  assumes "reg P X H S b F F1" "\<forall>w \<in> set ws. key_ok X w" "(new_State (Some d))\<lparr>jr := jr0\<rparr> \<in> S"
    "(new_State (Some tok))\<lparr>jr := jr0\<rparr> \<in> S"
  shows "first_keys ws \<subseteq> dom (j (heap (register_words F1 ws tok d jr0) Start))"
  using assms
proof (induction ws arbitrary: F1)
  case Nil
  then show ?case by (simp add: first_keys_def)
next
  case (Cons w ws)
  let ?F = "snd (fastts F1 Start w tok d jr0)"
  have g: "reg P X H S b F ?F" using Cons.prems by (intro reg_fastts) auto
  have eq: "register_words F1 (w # ws) tok d jr0 = register_words ?F ws tok d jr0"
    by (simp add: register_words_def)
  have 1: "first_keys ws \<subseteq> dom (j (heap (register_words ?F ws tok d jr0) Start))"
    using Cons.IH [OF g] Cons.prems by simp
  have "reg P X H S b ?F (register_words ?F ws tok d jr0)"
    using Cons.prems by (intro reg_register_words reg_refl reg_inv [OF g]) auto
  from reg_dom [OF this]
  have 2: "w \<noteq> [] \<Longrightarrow> [hd w] \<in> dom (j (heap (register_words ?F ws tok d jr0) Start))"
    using fastts_first_key [OF Cons.prems(1) _ Cons.prems(3,4), of w] Cons.prems(2) by auto
  show ?case unfolding eq using 1 2 by (auto simp: first_keys_def)
qed

text \<open>The states that registration creates, with the side transitions given.\<close>

definition created :: "(cls \<times> nat option) list \<Rightarrow> (cls \<times> nat option) list \<Rightarrow> State set" where
  "created wjr ujr =
     {(new_State (Some tok))\<lparr>jr := wjr\<rparr> | tok. tok \<in> {TLD, WORD, SCHEME, SLASH_SCHEME}}
     \<union> {(new_State (Some tok))\<lparr>jr := ujr\<rparr> | tok. tok \<in> {UTLD, UWORD}}
     \<union> {new_State (Some (Custom s)) | s. True}
     \<union> {new_State (Some LOCALHOST), new_State None}"

definition class_states :: "nat set" where
  "class_states = {Num, Asciinumeric, Alphanumeric, Word, UWord, 47, 48, Emoji, 55, EmojiJoiner, 57}"

lemma map_upds_SomeD:
  "(m(ks [\<mapsto>] vs)) k = Some v \<Longrightarrow> m k = Some v \<or> v \<in> set vs"
proof (induction ks arbitrary: m vs)
  case Nil
  then show ?case by simp
next
  case (Cons a ks)
  show ?case
  proof (cases vs)
    case Nil
    then show ?thesis using Cons.prems by simp
  next
    case (Cons b bs)
    then have "((m(a \<mapsto> b))(ks [\<mapsto>] bs)) k = Some v" using Cons.prems by simp
    from Cons.IH [OF this] show ?thesis using Cons by (auto split: if_splits)
  qed
qed

lemma J1_range: "J1 c = Some n \<Longrightarrow> 1 \<le> n \<and> n < 42"
  unfolding J1_def using map_upds_SomeD [of Map.empty _ "[1..<42]" c n] by auto

lemma H4_Start:
  "H4 Start = \<lparr>j = J1(LF \<mapsto> Nl, CR \<mapsto> Cr, OBJECT_REPLACEMENT \<mapsto> Ws),
                jr = [(re_DIGIT, Some Num), (re_ASCII_LETTER, Some Word), (re_LETTER, Some UWord),
                      (re_SPACE, Some Ws), (re_EMOJI, Some Emoji)],
                jd = None, t = None\<rparr>"
  by (simp add: H4_def)

lemma H4_symbol: "1 \<le> q \<Longrightarrow> q < 42 \<Longrightarrow> H4 q = new_State (Some (snd (symbols ! (q - 1))))"
  by (simp add: H4_def H1_def)

lemma H4_j_targets:
  assumes "j (H4 q) c = Some n" "q < 58" "q \<notin> class_states"
  shows "0 < n \<and> n < 58 \<and> n \<notin> class_states"
proof -
  consider "q = Start" | "1 \<le> q \<and> q < 42" | "q = Nl" | "q = Cr" | "q = Ws" | "q = 52" | "q = 53"
    using assms(2,3) unfolding class_states_def by (simp add: numeral_eq_Suc) (auto simp: less_Suc_eq)
  then show ?thesis
  proof cases
    case 1
    then show ?thesis using assms(1) J1_range [of c n]
      by (auto simp: H4_Start class_states_def split: if_splits)
  next
    case 2
    then show ?thesis using assms(1) by (simp add: H4_symbol)
  qed (use assms(1) in \<open>auto simp: H4_def new_State_def class_states_def split: if_splits\<close>)
qed

lemma inv_F4_class: "inv class_states {} H4 F4"
  unfolding inv_def trie_def F4_def
  using H4_j_targets by (auto simp: class_states_def)

definition ascii_classes :: "cls \<Rightarrow> jsstring \<Rightarrow> bool" where
  "ascii_classes r s =
     (\<exists>c \<in> set s.
        (case r of
           re_DIGIT \<Rightarrow> 0x30 \<le> c \<and> c \<le> 0x39
         | re_ASCII_LETTER \<Rightarrow> 0x61 \<le> c \<and> c \<le> 0x7a
         | re_LETTER \<Rightarrow> (0x41 \<le> c \<and> c \<le> 0x5a) \<or> (0x61 \<le> c \<and> c \<le> 0x7a)
         | re_SPACE \<Rightarrow> c = 0x09 \<or> c = 0x0b \<or> c = 0x0c \<or> c = 0x20
         | re_EMOJI \<Rightarrow> c = 0x23 \<or> c = 0x2a \<or> (0x30 \<le> c \<and> c \<le> 0x39)))"

lemma heap_set_default:
  "heap (set_default F) =
     (heap F)(count F := new_State (Some SYM),
              Start := (((heap F)(count F := new_State (Some SYM))) Start)\<lparr>jd := Some (count F)\<rparr>)"
  and count_set_default: "count (set_default F) = count F + 1"
  and groups_set_default: "groups (set_default F) = groups F"
  by (simp_all add: set_default_def alloc_def)

lemma tables_ok_empty [simp]: "tables_ok {} tlds utlds customSchemes"
  by (simp add: tables_ok_def key_ok_def)

lemmas run_eval = run_with_def toLowerCase_AZ_def stringToArray_def stringToArray_loop.simps charAt_def
  run_loop.simps scan.simps scan_step_def init_vars_def accepts_def slice_def Let_def

lemma crlf_run:
  assumes "go0 Start [0x0d] = Some Cr" "go0 Cr [0x0a] = Some Nl" "\<And>c. go0 Nl c = None"
    "tg Nl = Some NL" "tg Cr = Some WS"
  shows "run_with go0 tg Start [0x0d, 0x0a, 0x0d, 0x0a] =
     Inr [\<lparr>tok_t = Some NL, tok_v = [0x0d, 0x0a], tok_s = 0, tok_e = 2\<rparr>,
          \<lparr>tok_t = Some NL, tok_v = [0x0d, 0x0a], tok_s = 2, tok_e = 4\<rparr>]"
  using assms by (simp add: run_eval)

definition line_states :: "nat set" where
  "line_states = {Nl, Cr}"

lemma H4_j_targets_line:
  assumes "j (H4 q) c = Some n" "q < 58" "q \<notin> line_states" "q = Start \<longrightarrow> c \<noteq> LF \<and> c \<noteq> CR"
  shows "0 < n \<and> n < 58 \<and> n \<notin> line_states"
proof -
  consider "q = Start" | "1 \<le> q \<and> q < 42" | "42 \<le> q \<and> q < 58"
    using assms(2) by linarith
  then show ?thesis
  proof cases
    case 1
    then show ?thesis using assms(1,4) J1_range [of c n]
      by (auto simp: H4_Start line_states_def split: if_splits)
  next
    case 2
    then show ?thesis using assms(1) by (simp add: H4_symbol)
  next
    case 3
    then have "q \<in> {42, 43, 44, 45, 46, 47, 48, 49, 50, 51, 52, 53, 54, 55, 56, 57}"
      by (simp add: numeral_eq_Suc) (auto simp: less_Suc_eq)
    then show ?thesis using assms(1,3)
      by (auto simp: H4_def new_State_def line_states_def split: if_splits)
  qed
qed

lemma inv_F4_line: "inv line_states {LF, CR} H4 F4"
  unfolding inv_def trie_def F4_def
  using H4_j_targets_line by (auto simp: line_states_def)

definition no_line_break_words :: "jsstring list \<Rightarrow> jsstring list \<Rightarrow> (jsstring \<times> bool) list \<Rightarrow> bool" where
  "no_line_break_words tlds utlds customSchemes \<longleftrightarrow>
     (\<forall>w \<in> set tlds \<union> set utlds \<union> fst ` set customSchemes. w \<noteq> [] \<longrightarrow> hd w \<noteq> 0x0d \<and> hd w \<noteq> 0x0a)"

lemma tables_ok_line:
  "no_line_break_words tlds utlds customSchemes \<Longrightarrow> tables_ok {LF, CR} tlds utlds customSchemes"
  by (auto simp: no_line_break_words_def tables_ok_def key_ok_def undefined_key_def)

lemma no_line_break_words_empty: "no_line_break_words [] [] []"
  by (simp add: no_line_break_words_def)

definition acc :: "fsm \<Rightarrow> bool" where
  "acc F \<longleftrightarrow> (\<forall>c n. j (heap F Start) c = Some n \<longrightarrow> n < count F \<and> t (heap F n) \<noteq> None)"

lemma reg_src_lt:
  assumes "inv P X H F1" "src \<in> trie P F1 \<or> (src = Start \<and> key \<notin> X)"
  shows "src < count F1"
  using assms(2) invD(1) [OF assms(1)] by (auto simp: trie_def)

lemma reg_acc: "reg P X H S False F F' \<Longrightarrow> acc F \<Longrightarrow> acc F'"
proof (induction rule: reg.induct)
  case reg_refl
  then show ?case by simp
next
  case (reg_link F1 src key st)
  have a: "acc F1" using reg_link by simp
  have s: "src < count F1" by (rule reg_src_lt [OF reg_inv [OF reg_link.hyps(1)] reg_link.hyps(2)])
  have tt: "src = Start \<Longrightarrow> t st \<noteq> None" using reg_link.hyps(5) by simp
  show ?case
    unfolding acc_def
  proof (intro allI impI)
    fix c n
    assume h: "j (heap (link F1 st src key) Start) c = Some n"
    show "n < count (link F1 st src key) \<and> t (heap (link F1 st src key) n) \<noteq> None"
    proof (cases "src = Start \<and> c = key")
      case True
      then have "n = count F1" using h s by (simp add: heap_link)
      then show ?thesis using True tt s by (simp add: heap_link)
    next
      case False
      then have "j (heap F1 Start) c = Some n" using h s by (auto simp: heap_link split: if_splits)
      then have "n < count F1" "t (heap F1 n) \<noteq> None" using a by (auto simp: acc_def)
      then show ?thesis by (auto simp: heap_link)
    qed
  qed
next
  case (reg_groups F1 tok flags)
  then show ?case by (simp add: acc_def)
qed

definition fresh :: "fsm \<Rightarrow> bool" where
  "fresh F \<longleftrightarrow> (\<forall>q \<ge> count F. heap F q = new_State None)"

lemma reg_new:
  "reg P X H S b F F' \<Longrightarrow> fresh F \<Longrightarrow>
     (\<forall>q \<ge> count F. (q < count F' \<longrightarrow> (heap F' q)\<lparr>j := Map.empty\<rparr> \<in> S)
                    \<and> (count F' \<le> q \<longrightarrow> heap F' q = new_State None))"
proof (induction rule: reg.induct)
  case reg_refl
  then show ?case by (simp add: fresh_def)
next
  case (reg_link F1 src key st)
  have s: "src < count F1" by (rule reg_src_lt [OF reg_inv [OF reg_link.hyps(1)] reg_link.hyps(2)])
  have e: "count F \<le> count F1" using reg_ext [OF reg_link.hyps(1)] by (simp add: ext_def)
  have st: "st\<lparr>j := Map.empty\<rparr> = st" using reg_link.hyps(3) by simp
  show ?case
  proof (intro allI impI)
    fix q assume q: "count F \<le> q"
    have IH: "(q < count F1 \<longrightarrow> (heap F1 q)\<lparr>j := Map.empty\<rparr> \<in> S) \<and> (count F1 \<le> q \<longrightarrow> heap F1 q = new_State None)"
      using reg_link.IH reg_link.prems q by blast
    show "(q < count (link F1 st src key) \<longrightarrow> (heap (link F1 st src key) q)\<lparr>j := Map.empty\<rparr> \<in> S)
        \<and> (count (link F1 st src key) \<le> q \<longrightarrow> heap (link F1 st src key) q = new_State None)"
      using IH s st reg_link.hyps(4) by (auto simp: heap_link)
  qed
next
  case (reg_groups F1 tok flags)
  then show ?case by simp
qed

text \<open>A start state whose every transition lands on an accepting state never fails.\<close>

lemma scan_keeps_accepting:
  "latestAccepting vs \<noteq> None \<Longrightarrow> latestAccepting (scan go0 tg iterable vs) \<noteq> None"
proof (induction go0 tg iterable vs rule: scan.induct)
  case (1 go0 tg iterable vs)
  show ?case
  proof (cases "charCursor vs < int (length iterable)")
    case True
    show ?thesis
    proof (cases "go0 (state vs) (iterable ! nat (charCursor vs))")
      case None
      then show ?thesis using True "1.prems" by (simp add: scan.simps [of go0 tg iterable vs])
    next
      case (Some q)
      have "latestAccepting (scan_step tg iterable vs q) \<noteq> None"
        using "1.prems" by (simp add: scan_step_def Let_def)
      then show ?thesis using True "1.IH" [OF True Some] Some
        by (simp add: scan.simps [of go0 tg iterable vs])
    qed
  next
    case False
    then show ?thesis using "1.prems" by (simp add: scan.simps [of go0 tg iterable vs])
  qed
qed

lemma scan_first_accepts:
  assumes "\<forall>c. \<exists>n. go0 start c = Some n \<and> tg n \<noteq> None" "c0 < int (length iterable)"
  shows "latestAccepting (scan go0 tg iterable (init_vars start cursor0 c0)) \<noteq> None"
proof -
  obtain n where n: "go0 start (iterable ! nat c0) = Some n" "tg n \<noteq> None"
    using assms(1) by blast
  have "latestAccepting (scan_step tg iterable (init_vars start cursor0 c0) n) \<noteq> None"
    using n(2) by (simp add: scan_step_def init_vars_def accepts_def Let_def)
  then have "latestAccepting (scan go0 tg iterable (scan_step tg iterable (init_vars start cursor0 c0) n)) \<noteq> None"
    by (rule scan_keeps_accepting)
  moreover have "scan go0 tg iterable (init_vars start cursor0 c0)
      = scan go0 tg iterable (scan_step tg iterable (init_vars start cursor0 c0) n)"
    using n(1) assms(2)
    by (subst scan.simps) (simp add: init_vars_def)
  ultimately show ?thesis by simp
qed

lemma run_loop_total:
  assumes "\<forall>c. \<exists>n. go0 start c = Some n \<and> tg n \<noteq> None"
  shows "\<exists>toks. run_loop go0 tg start str iterable cursor0 c0 tokens = Inr toks"
  using assms
proof (induction go0 tg start str iterable cursor0 c0 tokens rule: run_loop.induct)
  case (1 go0 tg start str iterable cursor0 c0 tokens)
  show ?case
  proof (cases "c0 < int (length iterable)")
    case False
    then show ?thesis by (simp add: run_loop.simps [of go0 tg start str iterable cursor0 c0 tokens])
  next
    case True
    define vs where "vs = scan go0 tg iterable (init_vars start cursor0 c0)"
    obtain la where la: "latestAccepting vs = Some la"
      using scan_first_accepts [of go0 start tg c0 iterable cursor0] "1.prems" True unfolding vs_def by blast
    from "1.IH" [OF True vs_def refl refl refl la "1.prems"]
    show ?thesis using True la
      by (simp add: run_loop.simps [of go0 tg start str iterable cursor0 c0 tokens] vs_def [symmetric] Let_def)
  qed
qed

lemma run_with_total:
  assumes "\<forall>c. \<exists>n. go0 start c = Some n \<and> tg n \<noteq> None"
  shows "\<exists>toks. run_with go0 tg start str = Inr toks"
  unfolding run_with_def using run_loop_total [of go0 start tg] assms by blast

abbreviation init_created :: "State set" where
  "init_created \<equiv> created (wordjr Word Asciinumeric) (uwordjr UWord Alphanumeric)"

lemma symbols_tags: "x \<in> set symbols \<Longrightarrow> \<exists>s. snd x = Tk s \<and> s \<noteq> ''EMOJI''"
  by (auto simp: symbols_def)

lemma H4_old_tags:
  assumes "0 < q" "q < 58" "q \<notin> class_states"
  shows "t (H4 q) \<noteq> Some EMOJI \<and> jd (H4 q) = None \<and> j (H4 q) [0x23] = None
      \<and> (jr (H4 q) = [] \<or> jr (H4 q) = [(re_SPACE, Some Ws)]) \<and> (q \<noteq> 52 \<longrightarrow> q \<noteq> 53 \<longrightarrow> t (H4 q) \<noteq> None)"
proof -
  consider "1 \<le> q \<and> q < 42" | "q = Nl" | "q = Cr" | "q = Ws" | "q = 52" | "q = 53"
    using assms unfolding class_states_def by (simp add: numeral_eq_Suc) (auto simp: less_Suc_eq)
  then show ?thesis
  proof cases
    case 1
    then have "q - 1 < length symbols" unfolding length_symbols by linarith
    then have "symbols ! (q - 1) \<in> set symbols" by (rule nth_mem)
    from symbols_tags [OF this] show ?thesis using 1 by (auto simp: H4_symbol new_State_def)
  qed (auto simp: H4_def new_State_def)
qed

lemma acc_F4: "acc F4"
  unfolding acc_def F4_def
proof (intro allI impI)
  fix c n
  assume "j (heap \<lparr>heap = H4, count = 58, groups = G4\<rparr> Start) c = Some n"
  then have h: "j (H4 Start) c = Some n" by simp
  have n: "0 < n \<and> n < 58 \<and> n \<notin> class_states"
    by (rule H4_j_targets [OF h]) (simp_all add: class_states_def)
  have "n \<noteq> 52 \<and> n \<noteq> 53" using h J1_range [of c n] by (auto simp: H4_Start split: if_splits)
  then show "n < count \<lparr>heap = H4, count = 58, groups = G4\<rparr>
      \<and> t (heap \<lparr>heap = H4, count = 58, groups = G4\<rparr> n) \<noteq> None"
    using n H4_old_tags [of n] by simp
qed

lemma fresh_F4: "fresh F4"
  by (simp add: fresh_def F4_def H4_def H1_def)

lemma chain_length: "chain str lo xs hi \<Longrightarrow> int (length xs) \<le> hi - lo"
proof (induction xs arbitrary: lo)
  case Nil
  then show ?case by simp
next
  case (Cons x xs)
  then have "int (length xs) \<le> hi - tok_e x" "lo < tok_e x" by auto
  then show ?case by simp
qed

text \<open>
  Claim C10. \<open>run\<close> terminates on every string: the model of the outer loop is a
  total function (its termination is proved where it is defined, by the number of code
  points left), and its result is either the TypeError of an iteration that reached no
  accepting state or a token list with at most one token per code unit, each token
  non-empty. The measure decreases because an iteration that has a latest accepting state
  resumes strictly after the code point it started at: the rollback never rewinds to or
  before the start of the token.
\<close>

theorem run_terminates:
  "(run_with go0 tg start str = Inl TypeError
      \<or> (\<exists>toks. run_with go0 tg start str = Inr toks \<and> length toks \<le> length str
             \<and> (\<forall>x \<in> set toks. tok_s x < tok_e x)))
   \<and> (\<forall>la. latestAccepting (scan go0 tg iterable (init_vars start cursor0 c0)) = Some la \<longrightarrow>
          c0 < charCursor (scan go0 tg iterable (init_vars start cursor0 c0))
                 - charsSinceAccepts (scan go0 tg iterable (init_vars start cursor0 c0)))"
proof -
  have 1: "run_with go0 tg start str = Inl TypeError
      \<or> (\<exists>toks. run_with go0 tg start str = Inr toks \<and> length toks \<le> length str
             \<and> (\<forall>x \<in> set toks. tok_s x < tok_e x))"
  proof (cases "run_with go0 tg start str")
    case (Inl e)
    then show ?thesis by (cases e) simp
  next
    case (Inr toks)
    note ch = run_with_chain [OF Inr]
    have "length toks \<le> length str" using chain_length [OF ch] by simp
    moreover have "\<forall>x \<in> set toks. tok_s x < tok_e x" using chain_members [OF ch] by blast
    ultimately show ?thesis using Inr by simp
  qed
  have 2: "c0 < charCursor (scan go0 tg iterable (init_vars start cursor0 c0))
                 - charsSinceAccepts (scan go0 tg iterable (init_vars start cursor0 c0))"
    if "latestAccepting (scan go0 tg iterable (init_vars start cursor0 c0)) = Some la" for la
    using progress_scan [OF progress_init, of c0 go0 tg iterable start cursor0] that
    by (simp add: progress_def)
  show ?thesis using 1 2 by blast
qed

text \<open>
  From the spec's words: \<open>upper_ascii\<close> replaces every ASCII letter \<open>a..z\<close> by
  its upper-case letter.
\<close>

definition upper_ascii :: "jsstring \<Rightarrow> jsstring" where
  "upper_ascii str = map (\<lambda>c. if 0x61 \<le> c \<and> c \<le> 0x7a then c - 0x20 else c) str"

lemma lower_upper: "toLowerCase_AZ (upper_ascii str) = toLowerCase_AZ str"
proof -
  have "(if 0x41 \<le> (if 0x61 \<le> c \<and> c \<le> 0x7a then c - 0x20 else c)
            \<and> (if 0x61 \<le> c \<and> c \<le> 0x7a then c - 0x20 else c) \<le> 0x5a
         then (if 0x61 \<le> c \<and> c \<le> 0x7a then c - 0x20 else c) + 0x20
         else (if 0x61 \<le> c \<and> c \<le> 0x7a then c - 0x20 else c))
        = (if 0x41 \<le> c \<and> c \<le> 0x5a then c + 0x20 else c)" for c :: char16
    by (auto simp: word_le_nat_alt word_less_nat_alt unat_sub_if' unat_word_ariths) 
  then show ?thesis by (simp add: toLowerCase_AZ_def upper_ascii_def)
qed


definition span :: "'tk token \<Rightarrow> 'tk option \<times> int \<times> int" where
  "span x = (tok_t x, tok_s x, tok_e x)"

definition same_spans :: "error + 'tk token list \<Rightarrow> error + 'tk token list \<Rightarrow> bool" where
  "same_spans r r' =
     (case r of
        Inl e \<Rightarrow> (case r' of Inl e' \<Rightarrow> True | Inr b \<Rightarrow> False)
      | Inr a \<Rightarrow> (case r' of Inl e' \<Rightarrow> False | Inr b \<Rightarrow> map span a = map span b))"

lemma run_loop_spans:
  "map span tokens = map span tokens' \<Longrightarrow>
     same_spans (run_loop go0 tg start str iterable cursor0 c0 tokens)
                (run_loop go0 tg start str' iterable cursor0 c0 tokens')"
proof (induction go0 tg start str iterable cursor0 c0 tokens arbitrary: tokens'
       rule: run_loop.induct)
  case (1 go0 tg start str iterable cursor0 c0 tokens)
  show ?case
  proof (cases "c0 < int (length iterable)")
    case False
    then show ?thesis using "1.prems"
      by (simp add: run_loop.simps [of go0 tg start _ iterable cursor0 c0] same_spans_def)
  next
    case True
    define vs where "vs = scan go0 tg iterable (init_vars start cursor0 c0)"
    show ?thesis
    proof (cases "latestAccepting vs")
      case None
      then show ?thesis using True
        by (simp add: run_loop.simps [of go0 tg start _ iterable cursor0 c0] vs_def [symmetric]
            Let_def same_spans_def)
    next
      case (Some la)
      define cursor1 where "cursor1 = cursor vs - sinceAccepts vs"
      define c1 where "c1 = charCursor vs - charsSinceAccepts vs"
      define tl1 where "tl1 = tokenLength vs - sinceAccepts vs"
      let ?tok = "\<lambda>s. \<lparr>tok_t = tg la, tok_v = slice s (cursor1 - tl1) cursor1,
                          tok_s = cursor1 - tl1, tok_e = cursor1\<rparr>"
      have "span (?tok str) = span (?tok str')" by (simp add: span_def)
      then have m: "map span (tokens @ [?tok str]) = map span (tokens' @ [?tok str'])"
        using "1.prems" by simp
      from "1.IH" [OF True vs_def cursor1_def c1_def tl1_def Some m]
      show ?thesis using True Some
        by (simp add: run_loop.simps [of go0 tg start _ iterable cursor0 c0] vs_def [symmetric]
            Let_def cursor1_def c1_def tl1_def)
    qed
  qed
qed

text \<open>
  Claim C3. Scanning is ASCII-case-insensitive and case-preserving: \<open>run\<close> on a string
  and on its ASCII upper-casing either both fail or return token lists of the same length
  with the same tags and the same start and end offsets, and every token's value is the
  slice of the string that was given, in its original case.
\<close>

theorem run_case_insensitive:
  "same_spans (run_with go0 tg start str) (run_with go0 tg start (upper_ascii str))
   \<and> (\<forall>toks. run_with go0 tg start str = Inr toks \<longrightarrow>
         (\<forall>x \<in> set toks. tok_v x = slice str (tok_s x) (tok_e x)))
   \<and> (\<forall>toks. run_with go0 tg start (upper_ascii str) = Inr toks \<longrightarrow>
         (\<forall>x \<in> set toks. tok_v x = slice (upper_ascii str) (tok_s x) (tok_e x)))"
proof -
  have "same_spans (run_with go0 tg start str) (run_with go0 tg start (upper_ascii str))"
    unfolding run_with_def lower_upper by (rule run_loop_spans) simp
  moreover have "\<forall>x \<in> set toks. tok_v x = slice s (tok_s x) (tok_e x)"
    if "run_with go0 tg start s = Inr toks" for s toks
    using chain_members [OF run_with_chain [OF that]] by blast
  ultimately show ?thesis by blast
qed

lemma sorted_insert_scheme:
  "sorted (map fst bs) \<Longrightarrow> sorted (map fst (insert_scheme a bs))"
  by (induction bs) (auto simp: compare_schemes_def)

lemma sorted_sort_schemes: "sorted (map fst (sort_schemes cs))"
  unfolding sort_schemes_def by (induction cs) (auto intro: sorted_insert_scheme)

lemma length_insert_scheme [simp]: "length (insert_scheme a bs) = Suc (length bs)"
  by (induction bs) auto

lemma length_sort_schemes [simp]: "length (sort_schemes cs) = length cs"
  unfolding sort_schemes_def by (induction cs) auto

lemma groups_fastts_walk [simp]: "groups (snd (fastts_walk F src w d jr0)) = groups F"
  by (induction F src w d jr0 rule: fastts_walk.induct)
     (auto simp: alloc_def set_j_def split: option.splits)

lemma groups_fastts [simp]: "groups (snd (fastts F src w tok d jr0)) = groups F"
  by (simp only: fastts_link snd_conv groups_link groups_fastts_walk)

lemma groups_register_words [simp]: "groups (register_words F ws tok d jr0) = groups F"
  unfolding register_words_def by (induction ws arbitrary: F) auto

lemma lit_localhost_ne: "lit ''localhost'' \<noteq> []"
  by (simp add: lit_def)

lemma Custom_G4: "Custom s \<notin> set (G4 k)"
  by (simp add: G4_def)

lemma created_shape:
  assumes "st \<in> init_created"
  shows "jd st = None" "t st \<noteq> Some EMOJI"
    "jr st = wordjr Word Asciinumeric \<or> jr st = uwordjr UWord Alphanumeric \<or> jr st = []"
  using assms by (auto simp: created_def new_State_def)

lemma find_targets:
  "find (\<lambda>(r, n). test r c) xs = Some (r, Some n) \<Longrightarrow> (r, Some n) \<in> set xs"
  by (induction xs) (auto split: if_splits)

lemma go_cases:
  assumes "go test H q c = Some n"
  shows "j (H q) c = Some n \<or> (j (H q) c = None \<and> ((\<exists>r. (r, Some n) \<in> set (jr (H q))) \<or> jd (H q) = Some n))"
proof (cases "j (H q) c")
  case (Some m)
  then show ?thesis using assms by (simp add: go_def)
next
  case None
  show ?thesis
  proof (cases "find (\<lambda>(r, n). test r c) (jr (H q))")
    case None2: None
    then show ?thesis using assms None by (simp add: go_def)
  next
    case (Some p)
    obtain r m where p: "p = (r, m)" by (cases p)
    then have "m = Some n" using assms None Some by (simp add: go_def)
    then show ?thesis using find_targets [of test c "jr (H q)" r n] Some p None by auto
  qed
qed

lemma upt_1_42:
  "[Suc 0..<42] = [1, 2, 3, 4, 5, 6, 7, 8, 9, 10, 11, 12, 13, 14, 15, 16, 17, 18, 19, 20, 21, 22, 23,
     24, 25, 26, 27, 28, 29, 30, 31, 32, 33, 34, 35, 36, 37, 38, 39, 40, 41 :: nat]"
  by code_simp

lemma J1_pound: "J1 [0x23] = Some 33"
  by (simp add: J1_def symbols_def upt_1_42)

definition clean :: "jsstring list \<Rightarrow> jsstring set \<Rightarrow> int \<Rightarrow> int \<Rightarrow> bool" where
  "clean iterable B lo hi = (\<forall>i. lo \<le> i \<and> i < hi \<longrightarrow> iterable ! nat i \<notin> B)"

definition avoids :: "jsstring list \<Rightarrow> 'q set \<Rightarrow> jsstring set \<Rightarrow> int \<Rightarrow> 'q scan_vars \<Rightarrow> bool" where
  "avoids iterable R B c0 vs =
     ((state vs \<in> R \<longrightarrow> clean iterable B c0 (charCursor vs))
      \<and> (\<forall>q. latestAccepting vs = Some q \<and> q \<in> R \<longrightarrow>
             clean iterable B c0 (charCursor vs - charsSinceAccepts vs)))"

lemma avoids_step:
  assumes "\<And>q c n. go0 q c = Some n \<Longrightarrow> n \<in> R \<Longrightarrow> q \<in> R \<and> c \<notin> B"
    "avoids iterable R B c0 vs" "progress c0 vs"
    "go0 (state vs) (iterable ! nat (charCursor vs)) = Some n"
  shows "avoids iterable R B c0 (scan_step tg iterable vs n)"
proof -
  have 1: "clean iterable B c0 (charCursor vs + 1)" if "n \<in> R"
  proof -
    have "state vs \<in> R" "iterable ! nat (charCursor vs) \<notin> B" using assms(1) [OF assms(4) that] by auto
    then have "clean iterable B c0 (charCursor vs)" using assms(2) by (simp add: avoids_def)
    then show ?thesis using \<open>iterable ! nat (charCursor vs) \<notin> B\<close>
      unfolding clean_def by (metis add.commute less_le not_less zless_add1_eq)
  qed
  show ?thesis
  proof (cases "accepts tg n")
    case True
    then show ?thesis using 1 by (simp add: avoids_def scan_step_def Let_def)
  next
    case False
    show ?thesis
    proof (cases "latestAccepting vs")
      case None
      then show ?thesis using 1 False assms(3)
        by (simp add: avoids_def scan_step_def Let_def progress_def)
    next
      case (Some la)
      then have "0 \<le> sinceAccepts vs" using assms(3) by (simp add: progress_def)
      then show ?thesis using 1 False assms(2) Some
        by (simp add: avoids_def scan_step_def Let_def)
    qed
  qed
qed

lemma avoids_scan:
  "(\<forall>q c n. go0 q c = Some n \<longrightarrow> n \<in> R \<longrightarrow> q \<in> R \<and> c \<notin> B) \<Longrightarrow>
     avoids iterable R B c0 vs \<Longrightarrow> progress c0 vs \<Longrightarrow> avoids iterable R B c0 (scan go0 tg iterable vs)"
proof (induction go0 tg iterable vs rule: scan.induct)
  case (1 go0 tg iterable vs)
  show ?case
  proof (cases "charCursor vs < int (length iterable)")
    case True
    show ?thesis
    proof (cases "go0 (state vs) (iterable ! nat (charCursor vs))")
      case None
      then show ?thesis using True "1.prems" by (simp add: scan.simps [of go0 tg iterable vs])
    next
      case (Some n)
      have a: "avoids iterable R B c0 (scan_step tg iterable vs n)"
        using "1.prems"(1) by (intro avoids_step [of go0 R B, OF _ "1.prems"(2,3) Some]) blast
      show ?thesis
        using True Some "1.IH" [OF True Some "1.prems"(1) a progress_step [OF "1.prems"(3)]]
        by (simp add: scan.simps [of go0 tg iterable vs])
    qed
  next
    case False
    then show ?thesis using "1.prems" by (simp add: scan.simps [of go0 tg iterable vs])
  qed
qed


definition tok_clean :: "jsstring list \<Rightarrow> jsstring set \<Rightarrow> 'tk token \<Rightarrow> bool" where
  "tok_clean iterable B x =
     (\<exists>c0 c1. 0 \<le> c0 \<and> c0 \<le> c1 \<and> c1 \<le> int (length iterable)
        \<and> tok_s x = off iterable c0 \<and> tok_e x = off iterable c1 \<and> clean iterable B c0 c1)"

lemma run_loop_avoid:
  "(\<forall>q c n. go0 q c = Some n \<longrightarrow> n \<in> R \<longrightarrow> q \<in> R \<and> c \<notin> B) \<Longrightarrow>
   (\<forall>q. tg q = Some T \<longrightarrow> q \<in> R) \<Longrightarrow> start \<in> R \<Longrightarrow>
   run_loop go0 tg start str iterable cursor0 c0 tokens = Inr toks \<Longrightarrow>
   0 \<le> c0 \<Longrightarrow> c0 \<le> int (length iterable) \<Longrightarrow> cursor0 = off iterable c0 \<Longrightarrow>
   (\<forall>x \<in> set tokens. tok_t x = Some T \<longrightarrow> tok_clean iterable B x) \<Longrightarrow>
   (\<forall>x \<in> set toks. tok_t x = Some T \<longrightarrow> tok_clean iterable B x)"
proof (induction go0 tg start str iterable cursor0 c0 tokens rule: run_loop.induct)
  case (1 go0 tg start str iterable cursor0 c0 tokens)
  show ?case
  proof (cases "c0 < int (length iterable)")
    case False
    have "toks = tokens" using "1.prems"(4) False
      by (simp add: run_loop.simps [of go0 tg start str iterable cursor0 c0 tokens])
    then show ?thesis using "1.prems"(8) by simp
  next
    case True
    define vs where "vs = scan go0 tg iterable (init_vars start cursor0 c0)"
    define cursor1 where "cursor1 = cursor vs - sinceAccepts vs"
    define c1 where "c1 = charCursor vs - charsSinceAccepts vs"
    define tl1 where "tl1 = tokenLength vs - sinceAccepts vs"
    have pr: "progress c0 vs" unfolding vs_def by (rule progress_scan [OF progress_init])
    have of: "offsets iterable cursor0 c0 vs" unfolding vs_def
      using "1.prems" by (intro offsets_scan offsets_init progress_init) auto
    have av: "avoids iterable R B c0 vs" unfolding vs_def
      using "1.prems"(1,3)
      by (intro avoids_scan progress_init) (auto simp: avoids_def init_vars_def clean_def)
    obtain la where la: "latestAccepting vs = Some la"
      using "1.prems"(4) True
      by (cases "latestAccepting vs")
         (auto simp: run_loop.simps [of go0 tg start str iterable cursor0 c0 tokens] vs_def Let_def)
    define tok where "tok = \<lparr>tok_t = tg la, tok_v = slice str (cursor1 - tl1) cursor1,
                                 tok_s = cursor1 - tl1, tok_e = cursor1\<rparr>"
    have rec: "run_loop go0 tg start str iterable cursor1 c1 (tokens @ [tok]) = Inr toks"
      using "1.prems"(4) True la
      by (simp add: run_loop.simps [of go0 tg start str iterable cursor0 c0 tokens] Let_def
          vs_def [symmetric] cursor1_def c1_def tl1_def tok_def)
    have c1: "c0 < c1" "c1 \<le> int (length iterable)" "0 \<le> c1"
      using pr of la "1.prems" by (auto simp: progress_def offsets_def c1_def)
    have cur1: "cursor1 = off iterable c1"
      using pr of la "1.prems" by (auto simp: progress_def offsets_def c1_def cursor1_def)
    have st: "cursor1 - tl1 = cursor0"
      using of by (simp add: offsets_def cursor1_def tl1_def)
    have "tok_clean iterable B tok" if "tok_t tok = Some T"
    proof -
      have "la \<in> R" using that "1.prems"(2) by (simp add: tok_def)
      then have "clean iterable B c0 c1" using av la by (simp add: avoids_def c1_def)
      then show ?thesis unfolding tok_clean_def
        using c1 "1.prems"(5,7) cur1 st by (intro exI [of _ c0] exI [of _ c1]) (simp add: tok_def)
    qed
    then have "\<forall>x \<in> set (tokens @ [tok]). tok_t x = Some T \<longrightarrow> tok_clean iterable B x"
      using "1.prems"(8) by auto
    from "1.IH" [OF True vs_def cursor1_def c1_def tl1_def la "1.prems"(1,2,3) _ c1(3) c1(2) cur1]
      rec this
    show ?thesis by (simp add: tok_def)
  qed
qed

lemma chunks_pound: "x \<in> set (chunks s) \<Longrightarrow> 0x23 \<in> set x \<Longrightarrow> x = [0x23]"
  by (induction s rule: chunks.induct) (auto simp: is_high_def is_low_def split: if_splits)

lemma off_le_length: "off iterable n \<le> int (length (concat iterable))"
proof -
  have "concat iterable = concat (take (nat n) iterable) @ concat (drop (nat n) iterable)"
    by (metis append_take_drop_id concat_append)
  then have "length (concat iterable) = length (concat (take (nat n) iterable)) + length (concat (drop (nat n) iterable))"
    by (metis length_append)
  then show ?thesis by (simp add: off_def)
qed

lemma slice_concat:
  assumes "0 \<le> c0" "c0 \<le> c1" "c1 \<le> int (length iterable)"
  shows "slice (concat iterable) (off iterable c0) (off iterable c1)
           = concat (take (nat c1 - nat c0) (drop (nat c0) iterable))"
proof -
  let ?A = "take (nat c0) iterable" and ?M = "take (nat c1 - nat c0) (drop (nat c0) iterable)"
  let ?Z = "drop (nat c1) iterable"
  have le: "nat c0 \<le> nat c1" using assms by simp
  have "take (nat c1) iterable = ?A @ ?M"
    using le by (metis le_add_diff_inverse take_add)
  then have 1: "off iterable c1 = off iterable c0 + int (length (concat ?M))"
    by (simp add: off_def)
  have "iterable = ?A @ ?M @ ?Z"
    using \<open>take (nat c1) iterable = ?A @ ?M\<close> by (metis append.assoc append_take_drop_id)
  then have 2: "concat iterable = concat ?A @ concat ?M @ concat ?Z"
    by (metis concat_append)
  have 3: "off iterable c0 = int (length (concat ?A))" by (simp add: off_def)
  have "slice (concat iterable) (off iterable c0) (off iterable c1)
      = take (nat (off iterable c1) - nat (off iterable c0)) (drop (nat (off iterable c0)) (concat iterable))"
    using off_mono [OF assms(1,2), of iterable] off_le_length [of iterable c1]
    by (intro slice_nat) (simp_all add: off_def)
  also have "\<dots> = take (length (concat ?M)) (drop (length (concat ?A)) (concat ?A @ concat ?M @ concat ?Z))"
  proof -
    have "nat (off iterable c0) = length (concat ?A)" using 3 by simp
    moreover have "nat (off iterable c1) - nat (off iterable c0) = length (concat ?M)"
      unfolding 1 3 by (simp add: nat_add_distrib)
    ultimately show ?thesis using 2 by (simp only:)
  qed
  also have "\<dots> = concat ?M" by simp
  finally show ?thesis .
qed

lemma slice_map: "slice (map f str) a b = map f (slice str a b)"
  by (simp add: slice_def Let_def take_map drop_map)

lemma pound_lower: "0x23 \<in> set (toLowerCase_AZ s) \<longleftrightarrow> 0x23 \<in> set s"
proof -
  have "(if 0x41 \<le> c \<and> c \<le> 0x5a then c + 0x20 else c) = 0x23 \<longleftrightarrow> c = 0x23" for c :: char16
    by (auto simp: word_le_nat_alt unat_word_ariths)
  then show ?thesis by (auto simp: toLowerCase_AZ_def image_iff)
qed

lemma in_take_drop:
  assumes "y \<in> set (take n (drop k xs))"
  shows "\<exists>i. k \<le> i \<and> i < k + n \<and> i < length xs \<and> xs ! i = y"
proof -
  obtain m where m: "m < length (take n (drop k xs))" "take n (drop k xs) ! m = y"
    using assms by (auto simp: in_set_conv_nth)
  then have "m < n" "k + m < length xs" by auto
  then have "xs ! (k + m) = y" using m by simp
  then show ?thesis using \<open>m < n\<close> \<open>k + m < length xs\<close> by (intro exI [of _ "k + m"]) simp
qed

lemma J1_pound_only: "J1 c = Some 33 \<Longrightarrow> c = [0x23]"
  by (simp add: J1_def symbols_def upt_1_42 split: if_splits)

lemma H4_j_targets_pound:
  assumes "j (H4 q) c = Some n" "q < 58" "q \<noteq> 33" "q = Start \<longrightarrow> c \<noteq> [0x23]"
  shows "0 < n \<and> n < 58 \<and> n \<noteq> 33"
proof -
  consider "q = Start" | "1 \<le> q \<and> q < 42" | "42 \<le> q \<and> q < 58"
    using assms(2) by linarith
  then show ?thesis
  proof cases
    case 1
    then show ?thesis using assms(1,4) J1_range [of c n] J1_pound_only [of c]
      by (auto simp: H4_Start split: if_splits)
  next
    case 2
    then show ?thesis using assms(1) by (simp add: H4_symbol)
  next
    case 3
    then have "q \<in> {42, 43, 44, 45, 46, 47, 48, 49, 50, 51, 52, 53, 54, 55, 56, 57}"
      by (simp add: numeral_eq_Suc) (auto simp: less_Suc_eq)
    then show ?thesis using assms(1,3)
      by (auto simp: H4_def new_State_def split: if_splits)
  qed
qed

lemma inv_F4_pound: "inv {33} {[0x23]} H4 F4"
  unfolding inv_def trie_def F4_def
  using H4_j_targets_pound by auto

definition no_pound_words :: "jsstring list \<Rightarrow> jsstring list \<Rightarrow> (jsstring \<times> bool) list \<Rightarrow> bool" where
  "no_pound_words tlds utlds customSchemes \<longleftrightarrow>
     (\<forall>w \<in> set tlds \<union> set utlds \<union> fst ` set customSchemes. w \<noteq> [] \<longrightarrow> hd w \<noteq> 0x23)"

lemma tables_ok_pound:
  "no_pound_words tlds utlds customSchemes \<Longrightarrow> tables_ok {[0x23]} tlds utlds customSchemes"
  by (auto simp: no_pound_words_def tables_ok_def key_ok_def undefined_key_def)

lemma no_pound_words_empty: "no_pound_words [] [] []"
  by (simp add: no_pound_words_def)

lemma H4_targets_all:
  assumes "j (H4 q) c = Some n" "q < 58"
  shows "0 < n \<and> n < 58"
proof (cases "q \<in> class_states")
  case True
  then show ?thesis using assms(1)
    by (auto simp: H4_def class_states_def new_State_def split: if_splits)
next
  case False
  then show ?thesis using H4_j_targets [OF assms False] by simp
qed

lemma inv_F4_keys: "inv {} X H4 F4"
  unfolding inv_def trie_def F4_def
  using H4_targets_all by auto

lemma J1_sample: "J1 [0x61] = None" "J1 [0x62] = None" "J1 [0x263a] = None"
  by (simp_all add: J1_def symbols_def upt_1_42)

abbreviation Pound :: nat where "Pound \<equiv> 33"
abbreviation EmojiPound :: nat where "EmojiPound \<equiv> 55"
abbreviation JoinerPound :: nat where "JoinerPound \<equiv> 57"

definition emoji_classes :: "cls \<Rightarrow> jsstring \<Rightarrow> bool" where
  "emoji_classes r s = (r = re_EMOJI \<and> (s = [0x263a] \<or> s = [0x23]))"

lemma sample_schemes:
  "sort_schemes [(lit ''steam'', True), (lit ''fb'', False)] = [(lit ''fb'', False), (lit ''steam'', True)]"
  by (simp add: sort_schemes_def compare_schemes_def lit_def)

lemma sample_flags:
  "scheme_flags ascii_classes (lit ''fb'') False = [slashscheme, ascii]"
  by (simp add: scheme_flags_def lit_def ascii_classes_def)

text \<open>
  The registrations of lines 160-179: the tables of top-level domains and the fixed
  schemes, all of them through \<open>fastts\<close>.
\<close>

definition register_fixed :: "jsstring list \<Rightarrow> jsstring list \<Rightarrow> (cls \<times> nat option) list
    \<Rightarrow> (cls \<times> nat option) list \<Rightarrow> fsm \<Rightarrow> fsm" where
  "register_fixed tlds utlds wjr ujr F0 =
     (let F = register_words F0 tlds TLD WORD wjr;
          F = register_words F utlds UTLD UWORD ujr;
          F = addToGroups TLD [tld, ascii] F;
          F = addToGroups UTLD [utld, alpha] F;
          F = snd (fastts F Start (lit ''file'') SCHEME WORD wjr);
          F = snd (fastts F Start (lit ''mailto'') SCHEME WORD wjr);
          F = snd (fastts F Start (lit ''http'') SLASH_SCHEME WORD wjr);
          F = snd (fastts F Start (lit ''https'') SLASH_SCHEME WORD wjr);
          F = snd (fastts F Start (lit ''ftp'') SLASH_SCHEME WORD wjr);
          F = snd (fastts F Start (lit ''ftps'') SLASH_SCHEME WORD wjr);
          F = addToGroups SCHEME [scheme, ascii] F;
          F = addToGroups SLASH_SCHEME [slashscheme, ascii] F
      in F)"

lemma init_register_eq:
  "init_register test tlds utlds customSchemes wjr ujr F0 =
     snd (ts test (register_customSchemes test (register_fixed tlds utlds wjr ujr F0) customSchemes)
            Start (lit ''localhost'') LOCALHOST [ascii])"
  by (simp add: init_register_def register_fixed_def Let_def)

lemma register_fixed_reg:
  assumes "inv P X H F" "\<forall>w \<in> set tlds \<union> set utlds. key_ok X w"
    "[0x66] \<notin> X" "[0x6d] \<notin> X" "[0x68] \<notin> X"
  shows "reg P X H (created wjr ujr) b F (register_fixed tlds utlds wjr ujr F)"
proof -
  have S: "(new_State (Some TLD))\<lparr>jr := wjr\<rparr> \<in> created wjr ujr"
    "(new_State (Some WORD))\<lparr>jr := wjr\<rparr> \<in> created wjr ujr"
    "(new_State (Some SCHEME))\<lparr>jr := wjr\<rparr> \<in> created wjr ujr"
    "(new_State (Some SLASH_SCHEME))\<lparr>jr := wjr\<rparr> \<in> created wjr ujr"
    "(new_State (Some UTLD))\<lparr>jr := ujr\<rparr> \<in> created wjr ujr"
    "(new_State (Some UWORD))\<lparr>jr := ujr\<rparr> \<in> created wjr ujr"
    unfolding created_def by blast+
  have k: "key_ok X (lit ''file'')" "key_ok X (lit ''mailto'')" "key_ok X (lit ''http'')"
    "key_ok X (lit ''https'')" "key_ok X (lit ''ftp'')" "key_ok X (lit ''ftps'')"
    using assms(3-) by (simp_all add: lit_simps key_ok_def)
  have w: "\<forall>w \<in> set tlds. key_ok X w" "\<forall>w \<in> set utlds. key_ok X w" using assms(2) by auto
  show ?thesis unfolding register_fixed_def Let_def
    by (intro reg_groups reg_fastts reg_register_words reg_refl assms(1) k w S)
qed

text \<open>Every edge of a node leads to a node that exists and is not the start state.\<close>

definition tgts :: "State \<Rightarrow> nat set" where
  "tgts st = ran (j st) \<union> {n. \<exists>r. (r, Some n) \<in> set (jr st)} \<union> set_option (jd st)"

definition wf :: "fsm \<Rightarrow> bool" where
  "wf F \<longleftrightarrow> 0 < count F \<and> (\<forall>q < count F. tgts (heap F q) \<subseteq> {n. 0 < n \<and> n < count F})
     \<and> (\<forall>q \<ge> count F. heap F q = new_State None)"

lemma wfD:
  assumes "wf F"
  shows "0 < count F" "\<And>q n. q < count F \<Longrightarrow> n \<in> tgts (heap F q) \<Longrightarrow> 0 < n \<and> n < count F"
    "\<And>q. count F \<le> q \<Longrightarrow> heap F q = new_State None"
  using assms unfolding wf_def by blast+

lemma tgts_new_State [simp]: "tgts (new_State tok) = {}"
  by (simp add: tgts_def new_State_def)

lemma tgts_t_update [simp]: "tgts (st\<lparr>t := x\<rparr>) = tgts st"
  by (simp add: tgts_def)

lemma tgts_j_update: "tgts (st\<lparr>j := (j st)(key \<mapsto> n)\<rparr>) \<subseteq> insert n (tgts st)"
  by (auto simp: tgts_def ran_def split: if_splits)

lemma go_tgts: "go test H q c = Some n \<Longrightarrow> n \<in> tgts (H q)"
  using go_cases [of test H q c n] by (auto simp: tgts_def ran_def)

lemma wf_link:
  assumes "wf F" "src < count F" "tgts st \<subseteq> {n. 0 < n \<and> n < count F}"
  shows "wf (link F st src key)"
  unfolding wf_def
proof (intro conjI allI impI)
  show "0 < count (link F st src key)" by simp
next
  fix q assume q: "q < count (link F st src key)"
  have old: "tgts (heap F p) \<subseteq> {n. 0 < n \<and> n < count F + 1}" if "p < count F" for p
  proof
    fix n assume "n \<in> tgts (heap F p)"
    from wfD(2) [OF assms(1) that this] show "n \<in> {n. 0 < n \<and> n < count F + 1}" by simp
  qed
  have new: "tgts st \<subseteq> {n. 0 < n \<and> n < count F + 1}" using assms(3) by auto
  have c: "0 < count F" by (rule wfD(1) [OF assms(1)])
  show "tgts (heap (link F st src key) q) \<subseteq> {n. 0 < n \<and> n < count (link F st src key)}"
  proof (cases "q = src")
    case True
    have "heap (link F st src key) src = (heap F src)\<lparr>j := (j (heap F src))(key \<mapsto> count F)\<rparr>"
      using assms(2) by (simp add: heap_link)
    then show ?thesis using tgts_j_update [of "heap F src" key "count F"] old [OF assms(2)] c True
      by auto
  next
    case False
    then have "heap (link F st src key) q = (if q = count F then st else heap F q)"
      by (simp add: heap_link)
    then show ?thesis using old [of q] new q by (auto split: if_splits)
  qed
next
  fix q assume "count (link F st src key) \<le> q"
  then show "heap (link F st src key) q = new_State None"
    using wfD(3) [OF assms(1), of q] assms(2) by (simp add: heap_link)
qed

lemma wf_addToGroups [simp]: "wf (addToGroups tok flags F) = wf F"
  by (simp add: wf_def)

lemma reg_count: "reg P X H S b F F' \<Longrightarrow> count F \<le> count F'"
  using reg_ext by (auto simp: ext_def)

lemma reg_wf:
  "reg P X H S b F F' \<Longrightarrow> wf F \<Longrightarrow> \<forall>st \<in> S. tgts st \<subseteq> {n. 0 < n \<and> n < count F} \<Longrightarrow> wf F'"
proof (induction rule: reg.induct)
  case reg_refl
  then show ?case by simp
next
  case (reg_link F1 src key st)
  have s: "src < count F1" by (rule reg_src_lt [OF reg_inv [OF reg_link.hyps(1)] reg_link.hyps(2)])
  have "tgts st \<subseteq> {n. 0 < n \<and> n < count F1}"
    using reg_link.prems(2) reg_link.hyps(4) reg_count [OF reg_link.hyps(1)] by fastforce
  from wf_link [OF reg_link.IH [OF reg_link.prems] s this] show ?case .
next
  case (reg_groups F1 tok flags)
  then show ?case by simp
qed

lemma H4_jr_targets:
  assumes "(r, Some n) \<in> set (jr (H4 q))" "q < 58"
  shows "0 < n \<and> n < 58"
proof -
  consider "q = Start" | "1 \<le> q \<and> q < 42" | "42 \<le> q \<and> q < 58"
    using assms(2) by linarith
  then show ?thesis
  proof cases
    case 1
    then show ?thesis using assms(1) by (auto simp: H4_Start)
  next
    case 2
    then show ?thesis using assms(1) by (simp add: H4_symbol new_State_def)
  next
    case 3
    then have "q \<in> {42, 43, 44, 45, 46, 47, 48, 49, 50, 51, 52, 53, 54, 55, 56, 57}"
      by (simp add: numeral_eq_Suc) (auto simp: less_Suc_eq)
    then show ?thesis using assms(1)
      by (auto simp: H4_def new_State_def split: if_splits)
  qed
qed

lemma H4_jd: "jd (H4 q) = None"
  by (simp add: H4_def H1_def new_State_def)

lemma wf_F4: "wf F4"
  unfolding wf_def
proof (intro conjI allI impI)
  show "0 < count F4" by (simp add: F4_def)
next
  fix q assume "q < count F4"
  then have q: "q < 58" by (simp add: F4_def)
  show "tgts (heap F4 q) \<subseteq> {n. 0 < n \<and> n < count F4}"
    using H4_targets_all [OF _ q] H4_jr_targets [OF _ q] H4_jd [of q]
    by (auto simp: tgts_def F4_def ran_def)
next
  fix q assume "count F4 \<le> q"
  then show "heap F4 q = new_State None" using fresh_F4 by (simp add: fresh_def)
qed

lemma tgts_created:
  "st \<in> init_created \<Longrightarrow> tgts st \<subseteq> {n. 0 < n \<and> n < count F4}"
  by (auto simp: created_def tgts_def new_State_def wordjr_def uwordjr_def F4_def)

abbreviation fixed :: "jsstring list \<Rightarrow> jsstring list \<Rightarrow> fsm" where
  "fixed tlds utlds \<equiv>
     register_fixed tlds utlds (wordjr Word Asciinumeric) (uwordjr UWord Alphanumeric) F4"

lemma fixed_reg:
  "reg class_states {} H4 init_created b F4 (fixed tlds utlds)"
  by (rule register_fixed_reg [OF inv_F4_class]) (simp_all add: key_ok_def)

lemma wf_fixed: "wf (fixed tlds utlds)"
  by (rule reg_wf [OF fixed_reg wf_F4]) (use tgts_created in blast)

text \<open>What \<open>ts\<close> leaves as it was.\<close>

lemma tt_chain_link:
  "tt_chain test F src key tok flags =
     (count F,
      (case tok of Some k \<Rightarrow> addToGroups k flags | None \<Rightarrow> (\<lambda>F. F))
        (link F (case tok of Some k \<Rightarrow>
                   (case go test (heap F) src key of Some m \<Rightarrow> heap F m | None \<Rightarrow> new_State None)\<lparr>t := Some k\<rparr>
                 | None \<Rightarrow> (case go test (heap F) src key of Some m \<Rightarrow> heap F m | None \<Rightarrow> new_State None))
           src key))"
  by (simp add: tt_chain_def link_def alloc_def Let_def split: option.splits)

definition template :: "(cls \<Rightarrow> jsstring \<Rightarrow> bool) \<Rightarrow> fsm \<Rightarrow> nat \<Rightarrow> jsstring \<Rightarrow> tk option \<Rightarrow> State" where
  "template test F src key tok =
     (case tok of
        Some k \<Rightarrow> (case go test (heap F) src key of Some m \<Rightarrow> heap F m | None \<Rightarrow> new_State None)\<lparr>t := Some k\<rparr>
      | None \<Rightarrow> (case go test (heap F) src key of Some m \<Rightarrow> heap F m | None \<Rightarrow> new_State None))"

lemma heap_tt_chain:
  "heap (snd (tt_chain test F src key tok flags)) =
     heap (link F (template test F src key tok) src key)"
  and count_tt_chain: "count (snd (tt_chain test F src key tok flags)) = count F + 1"
  and fst_tt_chain: "fst (tt_chain test F src key tok flags) = count F"
  by (simp_all add: tt_chain_link template_def split: option.splits)

lemma groups_tt_chain:
  "set (groups (snd (tt_chain test F src key tok flags)) k) =
     set (groups F k) \<union> (case tok of Some x \<Rightarrow> if k \<in> set flags then {x} else {} | None \<Rightarrow> {})"
  by (simp add: tt_chain_link set_groups_addToGroups split: option.splits)

lemma tgts_template:
  assumes "wf F" "src < count F"
  shows "tgts (template test F src key tok) \<subseteq> {n. 0 < n \<and> n < count F}"
proof (cases "go test (heap F) src key")
  case None
  then show ?thesis by (simp add: template_def split: option.splits)
next
  case (Some m)
  have "m < count F" using wfD(2) [OF assms go_tgts [OF Some]] by simp
  then have "tgts (heap F m) \<subseteq> {n. 0 < n \<and> n < count F}" using wfD(2) [OF assms(1)] by auto
  then show ?thesis using Some by (simp add: template_def split: option.splits)
qed

lemma wf_tt_chain:
  assumes "wf F" "src < count F"
  shows "wf (snd (tt_chain test F src key tok flags))"
proof -
  have "wf (link F (template test F src key tok) src key)"
    by (rule wf_link [OF assms tgts_template [OF assms]])
  then show ?thesis
    by (simp add: wf_def heap_tt_chain count_tt_chain)
qed

definition frame :: "nat \<Rightarrow> jsstring set \<Rightarrow> fsm \<Rightarrow> fsm \<Rightarrow> bool" where
  "frame src K F F' \<longleftrightarrow>
     count F \<le> count F'
     \<and> (\<forall>q < count F. q \<noteq> src \<longrightarrow> heap F' q = heap F q)
     \<and> jr (heap F' src) = jr (heap F src) \<and> jd (heap F' src) = jd (heap F src)
     \<and> t (heap F' src) = t (heap F src)
     \<and> (\<forall>c. c \<notin> K \<longrightarrow> j (heap F' src) c = j (heap F src) c)
     \<and> (\<forall>k. set (groups F k) \<subseteq> set (groups F' k))"

lemma frame_refl [simp]: "frame src K F F"
  by (simp add: frame_def)

lemma frame_tt_chain:
  assumes "src < count F"
  shows "frame src {key} F (snd (tt_chain test F src key tok flags))"
  using assms by (auto simp: frame_def heap_tt_chain count_tt_chain heap_link groups_tt_chain)

lemma frame_trans_new:
  assumes "frame src K F F1" "frame n K' F1 F2" "count F \<le> n" "src < count F"
  shows "frame src K F F2"
proof -
  have a: "count F \<le> count F1" "\<forall>q < count F. q \<noteq> src \<longrightarrow> heap F1 q = heap F q"
    "\<forall>k. set (groups F k) \<subseteq> set (groups F1 k)"
    using assms(1) by (simp_all add: frame_def)
  have b: "count F1 \<le> count F2" "\<forall>q < count F1. q \<noteq> n \<longrightarrow> heap F2 q = heap F1 q"
    "\<forall>k. set (groups F1 k) \<subseteq> set (groups F2 k)"
    using assms(2) by (simp_all add: frame_def)
  have s: "heap F2 src = heap F1 src" using b(2) assms(3,4) a(1) by auto
  have o: "heap F2 q = heap F q" if "q < count F" "q \<noteq> src" for q
    using a(1,2) b(2) assms(3) that by auto
  have g: "set (groups F k) \<subseteq> set (groups F2 k)" for k using a(3) b(3) by blast
  show ?thesis unfolding frame_def using assms(1) a(1) b(1) s o g
    by (simp add: frame_def)
qed

lemma ts_frame:
  "wf F \<Longrightarrow> src < count F \<Longrightarrow>
     wf (snd (ts test F src v tok flags))
     \<and> frame src (if v = [] then {} else {[hd v]}) F (snd (ts test F src v tok flags))"
proof (induction test F src v tok flags rule: ts.induct)
  case (1 test F src tok flags)
  then show ?case by simp
next
  case (2 test F src c tok flags)
  then show ?case using wf_tt_chain frame_tt_chain by simp
next
  case (3 test F src c v va tok flags)
  let ?S = "tt_chain test F src [c] None []"
  have e: "ts test F src (c # v # va) tok flags = ts test (snd ?S) (count F) (v # va) tok flags"
    by (simp add: fst_tt_chain split: prod.splits) (metis fst_conv fst_tt_chain snd_conv)
  have w: "wf (snd ?S)" by (rule wf_tt_chain [OF "3.prems"])
  have c: "count F < count (snd ?S)" by (simp add: count_tt_chain)
  have p: "?S = (count F, snd ?S)" by (metis fst_tt_chain prod.collapse)
  from "3.IH" [OF p [symmetric] refl w c]
  have ih: "wf (snd (ts test (snd ?S) (count F) (v # va) tok flags))"
    "frame (count F) {[v]} (snd ?S) (snd (ts test (snd ?S) (count F) (v # va) tok flags))"
    by simp_all
  have "frame src {[c]} F (snd (ts test (snd ?S) (count F) (v # va) tok flags))"
    by (rule frame_trans_new [OF frame_tt_chain [OF "3.prems"(2)] ih(2) _ "3.prems"(2)]) simp
  then show ?case using ih(1) unfolding e by simp
qed

lemma frame_trans:
  assumes "frame src K F F1" "frame src K' F1 F2"
  shows "frame src (K \<union> K') F F2"
proof -
  have a: "count F \<le> count F1" "\<forall>q < count F. q \<noteq> src \<longrightarrow> heap F1 q = heap F q"
    "\<forall>k. set (groups F k) \<subseteq> set (groups F1 k)"
    "\<forall>c. c \<notin> K \<longrightarrow> j (heap F1 src) c = j (heap F src) c"
    using assms(1) by (simp_all add: frame_def)
  have b: "count F1 \<le> count F2" "\<forall>q < count F1. q \<noteq> src \<longrightarrow> heap F2 q = heap F1 q"
    "\<forall>k. set (groups F1 k) \<subseteq> set (groups F2 k)"
    "\<forall>c. c \<notin> K' \<longrightarrow> j (heap F2 src) c = j (heap F1 src) c"
    using assms(2) by (simp_all add: frame_def)
  have o: "heap F2 q = heap F q" if "q < count F" "q \<noteq> src" for q
    using a(1,2) b(2) that by auto
  have g: "set (groups F k) \<subseteq> set (groups F2 k)" for k using a(3) b(3) by blast
  have k: "j (heap F2 src) c = j (heap F src) c" if "c \<notin> K \<union> K'" for c
    using a(4) b(4) that by auto
  have s: "jr (heap F2 src) = jr (heap F src)" "jd (heap F2 src) = jd (heap F src)"
    "t (heap F2 src) = t (heap F src)"
    using assms by (simp_all add: frame_def)
  have c: "count F \<le> count F2" using a(1) b(1) by simp
  show ?thesis unfolding frame_def
    by (intro conjI allI impI c o g k s) simp_all
qed

lemma frame_mono:
  assumes "frame src K F F'" "K \<subseteq> K'"
  shows "frame src K' F F'"
proof -
  have "j (heap F' src) c = j (heap F src) c" if "c \<notin> K'" for c
    using assms that by (auto simp: frame_def)
  then show ?thesis using assms(1) by (simp add: frame_def)
qed

lemma first_keys_Cons:
  "first_keys (w # ws) = (if w = [] then {} else {[hd w]}) \<union> first_keys ws"
  by (cases "w = []") (auto simp: first_keys_def)

lemma first_keys_set: "set ws = set ws' \<Longrightarrow> first_keys ws = first_keys ws'"
  by (simp add: first_keys_def)

lemma foldl_scheme_frame:
  "wf F \<Longrightarrow>
     wf (foldl (register_scheme test) F xs)
     \<and> frame Start (first_keys (map fst xs)) F (foldl (register_scheme test) F xs)"
proof (induction xs arbitrary: F)
  case Nil
  then show ?case by simp
next
  case (Cons x xs)
  let ?F = "register_scheme test F x"
  have 1: "wf ?F" "frame Start (if fst x = [] then {} else {[hd (fst x)]}) F ?F"
    using ts_frame [OF Cons.prems wfD(1) [OF Cons.prems]] by (simp_all add: register_scheme_def)
  note 2 = Cons.IH [OF 1(1)]
  have "frame Start ((if fst x = [] then {} else {[hd (fst x)]})
      \<union> first_keys (map fst xs)) F (foldl (register_scheme test) ?F xs)"
    by (rule frame_trans [OF 1(2)]) (use 2 in simp)
  then show ?case using 2 by (simp add: first_keys_Cons)
qed

definition scheme_keys :: "(jsstring \<times> bool) list \<Rightarrow> jsstring set" where
  "scheme_keys customSchemes = first_keys (lit ''localhost'' # map fst customSchemes)"

abbreviation registered :: "(cls \<Rightarrow> jsstring \<Rightarrow> bool) \<Rightarrow> jsstring list \<Rightarrow> jsstring list
    \<Rightarrow> (jsstring \<times> bool) list \<Rightarrow> fsm" where
  "registered test tlds utlds customSchemes \<equiv>
     init_register test tlds utlds customSchemes (wordjr Word Asciinumeric) (uwordjr UWord Alphanumeric) F4"

lemma register_schemes_frame:
  assumes "wf F"
  shows "wf (snd (ts test (register_customSchemes test F customSchemes) Start (lit ''localhost'') LOCALHOST [ascii]))"
    "frame Start (scheme_keys customSchemes) F
       (snd (ts test (register_customSchemes test F customSchemes) Start (lit ''localhost'') LOCALHOST [ascii]))"
proof -
  let ?C = "register_customSchemes test F customSchemes"
  note 1 = foldl_scheme_frame [OF assms, of test "sort_schemes customSchemes"]
  have w: "wf ?C" using 1 by (simp add: register_customSchemes_def)
  have f: "frame Start (first_keys (map fst customSchemes)) F ?C"
    using 1 first_keys_set [of "map fst (sort_schemes customSchemes)" "map fst customSchemes"]
    by (simp add: register_customSchemes_def)
  note 2 = ts_frame [OF w wfD(1) [OF w], of test "lit ''localhost''" LOCALHOST "[ascii]"]
  show "wf (snd (ts test ?C Start (lit ''localhost'') LOCALHOST [ascii]))" using 2 by simp
  have "frame Start (first_keys (map fst customSchemes)
      \<union> (if lit ''localhost'' = [] then {} else {[hd (lit ''localhost'')]})) F
      (snd (ts test ?C Start (lit ''localhost'') LOCALHOST [ascii]))"
    by (rule frame_trans [OF f]) (use 2 in simp)
  then show "frame Start (scheme_keys customSchemes) F
      (snd (ts test ?C Start (lit ''localhost'') LOCALHOST [ascii]))"
    by (rule frame_mono) (simp add: scheme_keys_def first_keys_Cons)
qed

lemma registered_frame:
  "wf (registered test tlds utlds customSchemes)"
  "frame Start (scheme_keys customSchemes) (fixed tlds utlds) (registered test tlds utlds customSchemes)"
  unfolding init_register_eq by (rule register_schemes_frame [OF wf_fixed])+

text \<open>The final machine, state by state.\<close>

lemma init_Start:
  "heap (init test tlds utlds customSchemes) Start
     = (heap (registered test tlds utlds customSchemes) Start)
         \<lparr>jd := Some (count (registered test tlds utlds customSchemes))\<rparr>"
  "jr (heap (registered test tlds utlds customSchemes) Start) = jr (H4 Start)"
  "t (heap (registered test tlds utlds customSchemes) Start) = None"
  "heap (init test tlds utlds customSchemes) (count (registered test tlds utlds customSchemes))
     = new_State (Some SYM)"
  "0 < count (registered test tlds utlds customSchemes)"
  "jd (heap (registered test tlds utlds customSchemes) Start) = None"
proof -
  note i = reg_inv [OF fixed_reg [of True tlds utlds]]
  note f = registered_frame(2) [of customSchemes tlds utlds test, unfolded frame_def]
  show c: "0 < count (registered test tlds utlds customSchemes)"
    by (rule wfD(1) [OF registered_frame(1)])
  show "heap (init test tlds utlds customSchemes) Start
     = (heap (registered test tlds utlds customSchemes) Start)
         \<lparr>jd := Some (count (registered test tlds utlds customSchemes))\<rparr>"
    using c by (simp add: init_eq heap_set_default)
  show "jr (heap (registered test tlds utlds customSchemes) Start) = jr (H4 Start)"
    using f invD(6) [OF i] by simp
  show "t (heap (registered test tlds utlds customSchemes) Start) = None"
    using f invD(8) [OF i] by (simp add: H4_Start)
  show "heap (init test tlds utlds customSchemes) (count (registered test tlds utlds customSchemes))
     = new_State (Some SYM)"
    using c by (simp add: init_eq heap_set_default)
  show "jd (heap (registered test tlds utlds customSchemes) Start) = None"
    using f invD(7) [OF i] by (simp add: H4_Start)
qed

lemma init_other:
  assumes "q \<noteq> Start" "q \<noteq> count (registered test tlds utlds customSchemes)"
  shows "heap (init test tlds utlds customSchemes) q = heap (registered test tlds utlds customSchemes) q"
  using assms by (simp add: init_eq heap_set_default)

lemma fixed_count: "58 \<le> count (fixed tlds utlds)"
  using reg_count [OF fixed_reg [of True tlds utlds]] by (simp add: F4_def)

lemma registered_count: "count (fixed tlds utlds) \<le> count (registered test tlds utlds customSchemes)"
  using registered_frame(2) [of customSchemes tlds utlds test] by (simp add: frame_def)

lemma registered_fixed:
  assumes "0 < q" "q < count (fixed tlds utlds)"
  shows "heap (init test tlds utlds customSchemes) q = heap (fixed tlds utlds) q"
proof -
  have "heap (registered test tlds utlds customSchemes) q = heap (fixed tlds utlds) q"
    using registered_frame(2) [of customSchemes tlds utlds test] assms by (simp add: frame_def)
  then show ?thesis using assms registered_count [of tlds utlds test customSchemes]
    by (simp add: init_other)
qed

text \<open>
  States and keys of the start state that no registered word touches are, in the final
  machine, as the fixed part of \<open>init\<close> left them.
\<close>

lemma init_protected:
  assumes "inv P X H4 F4" "tables_ok X tlds utlds customSchemes"
  shows "q \<in> P \<Longrightarrow> heap (init test tlds utlds customSchemes) q = H4 q"
    and "c \<in> X \<Longrightarrow> j (heap (init test tlds utlds customSchemes) Start) c = j (H4 Start) c"
proof -
  let ?A = "fixed tlds utlds"
  have t: "\<forall>w \<in> set tlds \<union> set utlds. key_ok X w"
    "\<forall>x \<in> set customSchemes. fst x \<noteq> [] \<longrightarrow> [hd (fst x)] \<notin> X"
    "[0x66] \<notin> X" "[0x6d] \<notin> X" "[0x68] \<notin> X" "[0x6c] \<notin> X"
    using assms(2) by (auto simp: tables_ok_def)
  have i: "inv P X H4 ?A"
    by (rule reg_inv [OF register_fixed_reg [OF assms(1) t(1) t(3,4,5), where b = True]])
  show "heap (init test tlds utlds customSchemes) q = H4 q" if "q \<in> P"
  proof -
    have "q < 58" using invD(3) [OF assms(1) that] by (simp add: F4_def)
    moreover have "0 < q" using invD(2) [OF assms(1)] that by (cases q) auto
    ultimately have "heap (init test tlds utlds customSchemes) q = heap ?A q"
      using fixed_count [of tlds utlds] by (intro registered_fixed) auto
    then show ?thesis using invD(4) [OF i that] by simp
  qed
  show "j (heap (init test tlds utlds customSchemes) Start) c = j (H4 Start) c" if "c \<in> X"
  proof -
    have "c \<notin> scheme_keys customSchemes"
      using t(2,6) that by (auto simp: scheme_keys_def first_keys_def lit_simps)
    then have "j (heap (registered test tlds utlds customSchemes) Start) c = j (heap ?A Start) c"
      using registered_frame(2) [of customSchemes tlds utlds test] by (simp add: frame_def)
    then show ?thesis using invD(5) [OF i that] by (simp add: init_Start(1))
  qed
qed

lemma init_class_state:
  assumes "q \<in> class_states"
  shows "heap (init test tlds utlds customSchemes) q = H4 q"
  by (rule init_protected(1) [OF inv_F4_class _ assms]) simp

lemma init_line_states:
  assumes "no_line_break_words tlds utlds customSchemes"
  shows "heap (init test tlds utlds customSchemes) Nl = new_State (Some NL)"
    "heap (init test tlds utlds customSchemes) Cr =
       \<lparr>j = Map.empty(LF \<mapsto> Nl, OBJECT_REPLACEMENT \<mapsto> Ws), jr = [(re_SPACE, Some Ws)],
        jd = None, t = Some WS\<rparr>"
    "j (heap (init test tlds utlds customSchemes) Start) LF = Some Nl"
    "j (heap (init test tlds utlds customSchemes) Start) CR = Some Cr"
  using init_protected [OF inv_F4_line tables_ok_line [OF assms], of _ test]
  by (simp_all add: line_states_def H4_def H4_Start)

lemma init_pound_state:
  assumes "no_pound_words tlds utlds customSchemes"
  shows "heap (init test tlds utlds customSchemes) 33 = new_State (Some POUND)"
    "j (heap (init test tlds utlds customSchemes) Start) [0x23] = Some 33"
proof -
  have s: "symbols ! 32 = (0x23, POUND)" by (simp add: symbols_def)
  show "heap (init test tlds utlds customSchemes) 33 = new_State (Some POUND)"
    using init_protected(1) [OF inv_F4_pound tables_ok_pound [OF assms], of 33 test] s
    by (simp add: H4_symbol)
  show "j (heap (init test tlds utlds customSchemes) Start) [0x23] = Some 33"
    using init_protected(2) [OF inv_F4_pound tables_ok_pound [OF assms], of "[0x23]" test]
    by (simp add: H4_Start J1_pound)
qed

lemma init_Start_key:
  assumes "tables_ok {c} tlds utlds customSchemes"
  shows "j (heap (init test tlds utlds customSchemes) Start) c = j (H4 Start) c"
  by (rule init_protected(2) [OF inv_F4_keys assms]) simp

lemma init_Start_jr:
  "jr (heap (init test tlds utlds customSchemes) Start) = jr (H4 Start)"
  by (simp add: init_Start(1,2))

lemma fixed_old:
  assumes "q < 58"
  shows "t (heap (fixed tlds utlds) q) = t (H4 q)"
    "jr (heap (fixed tlds utlds) q) = jr (H4 q)"
    "jd (heap (fixed tlds utlds) q) = jd (H4 q)"
    "dom (j (H4 q)) \<subseteq> dom (j (heap (fixed tlds utlds) q))"
  using reg_ext [OF fixed_reg [of True tlds utlds]] assms
  by (simp_all add: ext_def F4_def)

lemma fixed_new:
  assumes "58 \<le> q"
  shows "q < count (fixed tlds utlds) \<longrightarrow> (heap (fixed tlds utlds) q)\<lparr>j := Map.empty\<rparr> \<in> init_created"
    "count (fixed tlds utlds) \<le> q \<longrightarrow> heap (fixed tlds utlds) q = new_State None"
  using reg_new [OF fixed_reg [of True tlds utlds] fresh_F4] assms
  by (simp_all add: F4_def)

lemma fixed_targets:
  assumes "j (heap (fixed tlds utlds) q) c = Some n" "q \<notin> class_states"
    "q < count (fixed tlds utlds)"
  shows "n \<in> trie class_states (fixed tlds utlds)"
proof -
  note i = reg_inv [OF fixed_reg [of True tlds utlds]]
  show ?thesis
  proof (cases "q = Start")
    case True
    then show ?thesis using invD(9) [OF i, of c n] assms(1) by simp
  next
    case False
    then have "q \<in> trie class_states (fixed tlds utlds)"
      using assms(2,3) by (simp add: trie_def)
    from invD(10) [OF i this assms(1)] show ?thesis .
  qed
qed

lemma fixed_class_state: "q \<in> class_states \<Longrightarrow> heap (fixed tlds utlds) q = H4 q"
  by (rule invD(4) [OF reg_inv [OF fixed_reg [of True tlds utlds]]])

text \<open>
  The states that continue an emoji: the Emoji state, the state after a joiner, and the
  copies that \<open>ts\<close> makes of them. They are the states whose only class edge is the one
  on EMOJI back to the Emoji state.
\<close>

definition el :: "State \<Rightarrow> bool" where
  "el st \<longleftrightarrow> jr st = [(re_EMOJI, Some Emoji)]"

definition emoji_ok :: "(cls \<Rightarrow> jsstring \<Rightarrow> bool) \<Rightarrow> (nat \<Rightarrow> State) \<Rightarrow> bool" where
  "emoji_ok test H \<longleftrightarrow>
     (\<forall>q c n. go test H q c = Some n \<longrightarrow> el (H n) \<longrightarrow> (q = Start \<or> el (H q)) \<and> c \<noteq> [0x23])
     \<and> (\<forall>q. t (H q) = Some EMOJI \<longrightarrow> el (H q))
     \<and> (\<forall>q c. go test H q c \<noteq> Some Start)"

lemma emoji_okD:
  assumes "emoji_ok test H"
  shows "\<And>q c n. go test H q c = Some n \<Longrightarrow> el (H n) \<Longrightarrow> (q = Start \<or> el (H q)) \<and> c \<noteq> [0x23]"
    "\<And>q. t (H q) = Some EMOJI \<Longrightarrow> el (H q)"
    "\<And>q c. go test H q c \<noteq> Some Start"
  using assms unfolding emoji_ok_def by blast+

lemma go_cong: "H q = H' q \<Longrightarrow> go test H q c = go test H' q c"
  by (auto simp: go_def split: option.splits)

lemma not_el_old:
  assumes "0 < n" "n < 58" "n \<notin> class_states"
  shows "\<not> el (heap (fixed tlds utlds) n)"
  using fixed_old(2) [OF assms(2), of tlds utlds] H4_old_tags [OF assms] by (auto simp: el_def)

lemma not_el_new:
  assumes "58 \<le> n"
  shows "\<not> el (heap (fixed tlds utlds) n)"
proof (cases "n < count (fixed tlds utlds)")
  case True
  then have "(heap (fixed tlds utlds) n)\<lparr>j := Map.empty\<rparr> \<in> init_created"
    using fixed_new(1) [OF assms] by simp
  from created_shape(3) [OF this] show ?thesis
    by (auto simp: el_def wordjr_def uwordjr_def)
next
  case False
  then show ?thesis using fixed_new(2) [OF assms, of tlds utlds] by (simp add: el_def new_State_def)
qed

lemma el_fixed: "el (heap (fixed tlds utlds) n) \<longleftrightarrow> n = Emoji \<or> n = EmojiJoiner"
proof -
  consider "n = Start" | "n \<in> class_states" | "0 < n" "n < 58" "n \<notin> class_states" | "58 \<le> n"
    by linarith
  then show ?thesis
  proof cases
    case 1
    then show ?thesis using fixed_old(2) [of Start tlds utlds] by (simp add: el_def H4_Start)
  next
    case 2
    then show ?thesis
      by (auto simp: fixed_class_state class_states_def H4_def el_def new_State_def)
  next
    case 3
    then show ?thesis using not_el_old [OF 3] by (auto simp: class_states_def)
  next
    case 4
    then show ?thesis using not_el_new [OF 4] by auto
  qed
qed

lemma emoji_edges_fixed:
  assumes g: "go test (heap (fixed tlds utlds)) q c = Some n" and e: "el (heap (fixed tlds utlds) n)"
  shows "(q = Start \<or> el (heap (fixed tlds utlds) q)) \<and> c \<noteq> [0x23]"
proof -
  let ?A = "fixed tlds utlds"
  have n: "n = Emoji \<or> n = EmojiJoiner" using e by (simp add: el_fixed)
  then have nc: "n \<in> class_states" by (auto simp: class_states_def)
  have cnt: "58 \<le> count ?A" by (rule fixed_count)
  consider "q = Start" | "q \<in> class_states" | "0 < q" "q < 58" "q \<notin> class_states"
    | "58 \<le> q" "q < count ?A" | "count ?A \<le> q"
    by linarith
  then have "(q = Start \<or> q = Emoji \<or> q = EmojiJoiner) \<and> c \<noteq> [0x23]"
  proof cases
    case 1
    have d: "[0x23] \<in> dom (j (heap ?A Start))"
      using fixed_old(4) [of Start tlds utlds] J1_pound by (auto simp: H4_Start)
    have tr: "j (heap ?A Start) c = Some m \<Longrightarrow> m \<noteq> n" for m
      using fixed_targets [of tlds utlds Start c m] nc cnt
      by (auto simp: trie_def class_states_def)
    from go_cases [OF g] show ?thesis
      using 1 tr d fixed_old(2,3) [of Start tlds utlds] by (auto simp: H4_Start)
  next
    case 2
    then show ?thesis using g n
      by (auto simp: fixed_class_state class_states_def H4_def go_def new_State_def split: if_splits)
  next
    case 3
    have tr: "j (heap ?A q) c = Some m \<Longrightarrow> m \<noteq> n" for m
      using fixed_targets [of tlds utlds q c m] nc 3 cnt by (auto simp: trie_def)
    note o = fixed_old [of q tlds utlds] H4_old_tags [OF 3]
    from go_cases [OF g] show ?thesis using tr o n 3(2) by auto
  next
    case 4
    have tr: "j (heap ?A q) c = Some m \<Longrightarrow> m \<noteq> n" for m
      using fixed_targets [of tlds utlds q c m] nc 4 by (auto simp: trie_def class_states_def)
    have "(heap ?A q)\<lparr>j := Map.empty\<rparr> \<in> init_created" using fixed_new(1) [of q tlds utlds] 4 by simp
    from created_shape [OF this]
    have s: "jd (heap ?A q) = None"
      "jr (heap ?A q) = wordjr Word Asciinumeric \<or> jr (heap ?A q) = uwordjr UWord Alphanumeric
         \<or> jr (heap ?A q) = []"
      by simp_all
    from go_cases [OF g] show ?thesis using tr s n by (auto simp: wordjr_def uwordjr_def)
  next
    case 5
    then have "heap ?A q = new_State None" using fixed_new(2) [of q tlds utlds] cnt by simp
    then show ?thesis using g by (simp add: go_def new_State_def)
  qed
  then show "(q = Start \<or> el (heap ?A q)) \<and> c \<noteq> [0x23]" by (auto simp: el_fixed)
qed

lemma emoji_tag_fixed:
  assumes a: "t (heap (fixed tlds utlds) q) = Some EMOJI"
  shows "el (heap (fixed tlds utlds) q)"
proof -
  let ?A = "fixed tlds utlds"
  consider "q = Start" | "q \<in> class_states" | "0 < q" "q < 58" "q \<notin> class_states"
    | "58 \<le> q" "q < count ?A" | "count ?A \<le> q"
    by linarith
  then have "q = Emoji"
  proof cases
    case 1
    then show ?thesis using a fixed_old(1) [of Start tlds utlds] by (simp add: H4_Start)
  next
    case 2
    then show ?thesis using a
      by (auto simp: fixed_class_state class_states_def H4_def new_State_def split: if_splits)
  next
    case 3
    then show ?thesis using a fixed_old(1) [of q tlds utlds] H4_old_tags [OF 3] by simp
  next
    case 4
    have "(heap ?A q)\<lparr>j := Map.empty\<rparr> \<in> init_created" using fixed_new(1) [of q tlds utlds] 4 by simp
    from created_shape(2) [OF this] show ?thesis using a by simp
  next
    case 5
    then have "heap ?A q = new_State None" using fixed_new(2) [of q tlds utlds] fixed_count [of tlds utlds] by simp
    then show ?thesis using a by (simp add: new_State_def)
  qed
  then show "el (heap ?A q)" by (simp add: el_fixed)
qed

lemma wf_no_Start:
  assumes "wf F"
  shows "go test (heap F) q c \<noteq> Some Start"
proof -
  let ?A = F
  show "go test (heap ?A) q c \<noteq> Some Start"
  proof (cases "q < count ?A")
    case True
    show ?thesis
    proof
      assume "go test (heap ?A) q c = Some Start"
      from wfD(2) [OF assms True go_tgts [OF this]] show False by simp
    qed
  next
    case False
    then have "heap ?A q = new_State None" using wfD(3) [OF assms] by simp
    then show ?thesis by (simp add: go_def new_State_def)
  qed
qed

lemma emoji_ok_fixed: "emoji_ok test (heap (fixed tlds utlds))"
  unfolding emoji_ok_def
  using emoji_edges_fixed emoji_tag_fixed wf_no_Start [OF wf_fixed] by blast

lemma go_fields:
  "j (H q) = j (H' q') \<Longrightarrow> jr (H q) = jr (H' q') \<Longrightarrow> jd (H q) = jd (H' q') \<Longrightarrow>
     go test H q c = go test H' q' c"
  by (auto simp: go_def split: option.splits)

lemma go_j_update:
  "go test (H(q := (H q)\<lparr>j := (j (H q))(key \<mapsto> n)\<rparr>)) q c = (if c = key then Some n else go test H q c)"
  by (auto simp: go_def split: option.splits)

text \<open>One step of \<open>ts\<close>, seen from the transitions of the machine.\<close>

lemma go_tt_chain:
  assumes "wf F" "src < count F"
  shows "go test (heap (snd (tt_chain test F src key tok flags))) q c =
     (if q = src then (if c = key then Some (count F) else go test (heap F) src c)
      else if q = count F
      then (case go test (heap F) src key of Some m \<Rightarrow> go test (heap F) m c | None \<Rightarrow> None)
      else go test (heap F) q c)"
proof -
  let ?st = "template test F src key tok"
  let ?H' = "heap (link F ?st src key)"
  have h: "heap (snd (tt_chain test F src key tok flags)) = ?H'" by (rule heap_tt_chain)
  have s: "?H' src = (heap F src)\<lparr>j := (j (heap F src))(key \<mapsto> count F)\<rparr>"
    using assms(2) by (simp add: heap_link)
  have n: "?H' (count F) = ?st" using assms(2) by (simp add: heap_link)
  have o: "?H' q = heap F q" if "q \<noteq> src" "q \<noteq> count F" using that by (simp add: heap_link)
  consider "q = src" | "q = count F" "q \<noteq> src" | "q \<noteq> src" "q \<noteq> count F" by blast
  then show ?thesis
  proof cases
    case 1
    have "go test ?H' src c = (if c = key then Some (count F) else go test (heap F) src c)"
      using s by (auto simp: go_def split: option.splits)
    then show ?thesis using 1 h by simp
  next
    case 2
    show ?thesis
    proof (cases "go test (heap F) src key")
      case None
      then have "?st = new_State tok" by (simp add: template_def new_State_def split: option.splits)
      then have "go test ?H' (count F) c = None" using n by (simp add: go_def new_State_def)
      then show ?thesis using 2 h None by simp
    next
      case (Some m)
      then have "j ?st = j (heap F m)" "jr ?st = jr (heap F m)" "jd ?st = jd (heap F m)"
        by (simp_all add: template_def split: option.splits)
      then have "go test ?H' (count F) c = go test (heap F) m c"
        using n by (intro go_fields) simp_all
      then show ?thesis using 2 h Some by simp
    qed
  next
    case 3
    then have "go test ?H' q c = go test (heap F) q c" by (intro go_cong o)
    then show ?thesis using 3 h by simp
  qed
qed

lemma fields_tt_chain:
  assumes "src < count F"
  shows "q \<noteq> count F \<Longrightarrow> jr (heap (snd (tt_chain test F src key tok flags)) q) = jr (heap F q)"
    "q \<noteq> count F \<Longrightarrow> t (heap (snd (tt_chain test F src key tok flags)) q) = t (heap F q)"
    "q \<noteq> count F \<Longrightarrow> jd (heap (snd (tt_chain test F src key tok flags)) q) = jd (heap F q)"
    "heap (snd (tt_chain test F src key tok flags)) (count F) = template test F src key tok"
  using assms by (auto simp: heap_tt_chain heap_link)

lemma template_fields:
  "jr (template test F src key tok) =
     (case go test (heap F) src key of Some m \<Rightarrow> jr (heap F m) | None \<Rightarrow> [])"
  "t (template test F src key tok) =
     (case tok of Some k \<Rightarrow> Some k
      | None \<Rightarrow> (case go test (heap F) src key of Some m \<Rightarrow> t (heap F m) | None \<Rightarrow> None))"
  by (simp_all add: template_def new_State_def split: option.splits)

lemma el_tt_chain:
  assumes "src < count F"
  shows "el (heap (snd (tt_chain test F src key tok flags)) q) \<longleftrightarrow>
     (if q = count F then (\<exists>m. go test (heap F) src key = Some m \<and> el (heap F m))
      else el (heap F q))"
  using fields_tt_chain(1) [OF assms, of q test key tok flags]
    fields_tt_chain(4) [OF assms, of test key tok flags]
  by (auto simp: el_def template_fields split: option.splits)

lemma go_lt:
  assumes "wf F" "go test (heap F) q c = Some n"
  shows "q < count F" "0 < n" "n < count F"
proof -
  show q: "q < count F"
  proof (rule ccontr)
    assume "\<not> q < count F"
    then have "heap F q = new_State None" using wfD(3) [OF assms(1)] by simp
    then show False using assms(2) by (simp add: go_def new_State_def)
  qed
  show "0 < n" "n < count F" using wfD(2) [OF assms(1) q go_tgts [OF assms(2)]] by simp_all
qed

lemma emoji_ok_tt_chain:
  assumes "wf F" "src < count F" "emoji_ok test (heap F)" "tok \<noteq> Some EMOJI"
  shows "emoji_ok test (heap (snd (tt_chain test F src key tok flags)))"
proof -
  let ?F' = "snd (tt_chain test F src key tok flags)"
  note G = go_tt_chain [OF assms(1,2), of test key tok flags]
  note E = el_tt_chain [OF assms(2), of test key tok flags]
  note D = emoji_okD [OF assms(3)]
  have 1: "(q = Start \<or> el (heap ?F' q)) \<and> c \<noteq> [0x23]"
    if g: "go test (heap ?F') q c = Some n" and e: "el (heap ?F' n)" for q c n
  proof -
    consider "q = src" "c = key" | "q = src" "c \<noteq> key" | "q \<noteq> src" "q = count F"
      | "q \<noteq> src" "q \<noteq> count F" by blast
    then show ?thesis
    proof cases
      case 1
      then have "n = count F" using g G by simp
      then obtain m where m: "go test (heap F) src key = Some m" "el (heap F m)"
        using e E by auto
      from D(1) [OF m] show ?thesis using 1 E assms(2) by auto
    next
      case 2
      then have g0: "go test (heap F) src c = Some n" using g G by simp
      then have "n \<noteq> count F" using go_lt(3) [OF assms(1) g0] by simp
      then have "el (heap F n)" using e E by simp
      from D(1) [OF g0 this] show ?thesis using 2 E assms(2) by auto
    next
      case 3
      then obtain m where m: "go test (heap F) src key = Some m" "go test (heap F) m c = Some n"
        using g G by (auto split: option.splits)
      have "n \<noteq> count F" using go_lt(3) [OF assms(1) m(2)] by simp
      then have "el (heap F n)" using e E by simp
      from D(1) [OF m(2) this] have "el (heap F m)" "c \<noteq> [0x23]"
        using go_lt(2) [OF assms(1) m(1)] by auto
      then show ?thesis using 3 E m(1) by auto
    next
      case 4
      then have g0: "go test (heap F) q c = Some n" using g G by simp
      then have "n \<noteq> count F" using go_lt(3) [OF assms(1) g0] by simp
      then have "el (heap F n)" using e E by simp
      from D(1) [OF g0 this] show ?thesis using 4 E by auto
    qed
  qed
  have 2: "el (heap ?F' q)" if a: "t (heap ?F' q) = Some EMOJI" for q
  proof (cases "q = count F")
    case True
    then have "t (template test F src key tok) = Some EMOJI"
      using a fields_tt_chain(4) [OF assms(2), of test key tok flags] by simp
    then obtain m where m: "go test (heap F) src key = Some m" "t (heap F m) = Some EMOJI"
      using assms(4) by (auto simp: template_fields split: option.splits)
    from D(2) [OF m(2)] show ?thesis using True E m(1) by auto
  next
    case False
    then have "t (heap F q) = Some EMOJI"
      using a fields_tt_chain(2) [OF assms(2) False, of test key tok flags] by simp
    from D(2) [OF this] show ?thesis using False E by simp
  qed
  have 3: "go test (heap ?F') q c \<noteq> Some Start" for q c
    by (rule wf_no_Start [OF wf_tt_chain [OF assms(1,2)]])
  show ?thesis unfolding emoji_ok_def using 1 2 3 by blast
qed

lemma ts_Cons2:
  "ts test F src (c # v # va) tok flags =
     ts test (snd (tt_chain test F src [c] None [])) (count F) (v # va) tok flags"
  by (simp add: fst_tt_chain split: prod.splits) (metis fst_conv fst_tt_chain snd_conv)

lemma emoji_ok_ts:
  "wf F \<Longrightarrow> src < count F \<Longrightarrow> emoji_ok test (heap F) \<Longrightarrow> tok \<noteq> EMOJI \<Longrightarrow>
     emoji_ok test (heap (snd (ts test F src v tok flags)))"
proof (induction test F src v tok flags rule: ts.induct)
  case (1 test F src tok flags)
  then show ?case by simp
next
  case (2 test F src c tok flags)
  then show ?case using emoji_ok_tt_chain [of F src test "Some tok"] by simp
next
  case (3 test F src c v va tok flags)
  let ?S = "tt_chain test F src [c] None []"
  have p: "?S = (count F, snd ?S)" by (metis fst_tt_chain prod.collapse)
  have e: "ts test F src (c # v # va) tok flags = ts test (snd ?S) (count F) (v # va) tok flags"
    by (rule ts_Cons2)
  have w: "wf (snd ?S)" by (rule wf_tt_chain [OF "3.prems"(1,2)])
  have c: "count F < count (snd ?S)" by (simp add: count_tt_chain)
  have o: "emoji_ok test (heap (snd ?S))"
    by (rule emoji_ok_tt_chain [OF "3.prems"(1,2,3)]) simp
  from "3.IH" [OF p [symmetric] refl w c o "3.prems"(4)] show ?case unfolding e .
qed

lemma emoji_ok_foldl:
  "wf F \<Longrightarrow> emoji_ok test (heap F) \<Longrightarrow> emoji_ok test (heap (foldl (register_scheme test) F xs))"
proof (induction xs arbitrary: F)
  case Nil
  then show ?case by simp
next
  case (Cons x xs)
  let ?F = "register_scheme test F x"
  have w: "wf ?F" using ts_frame [OF Cons.prems(1) wfD(1) [OF Cons.prems(1)]]
    by (simp add: register_scheme_def)
  have "emoji_ok test (heap ?F)" unfolding register_scheme_def
    by (rule emoji_ok_ts [OF Cons.prems(1) wfD(1) [OF Cons.prems(1)] Cons.prems(2)]) simp
  from Cons.IH [OF w this] show ?case by simp
qed

lemma emoji_ok_registered: "emoji_ok test (heap (registered test tlds utlds customSchemes))"
proof -
  let ?C = "register_customSchemes test (fixed tlds utlds) customSchemes"
  have w: "wf ?C"
    using foldl_scheme_frame [OF wf_fixed, where xs = "sort_schemes customSchemes"]
    by (simp add: register_customSchemes_def)
  have "emoji_ok test (heap ?C)" unfolding register_customSchemes_def
    by (rule emoji_ok_foldl [OF wf_fixed emoji_ok_fixed])
  from emoji_ok_ts [OF w wfD(1) [OF w] this] show ?thesis
    unfolding init_register_eq by simp
qed

lemma go_init:
  "go test (heap (init test tlds utlds customSchemes)) q c =
     (if q = Start
      then (case go test (heap (registered test tlds utlds customSchemes)) Start c of
              Some n \<Rightarrow> Some n
            | None \<Rightarrow> Some (count (registered test tlds utlds customSchemes)))
      else if q = count (registered test tlds utlds customSchemes) then None
      else go test (heap (registered test tlds utlds customSchemes)) q c)"
proof -
  let ?B = "registered test tlds utlds customSchemes"
  consider "q = Start" | "q = count ?B" "q \<noteq> Start" | "q \<noteq> Start" "q \<noteq> count ?B" by blast
  then show ?thesis
  proof cases
    case 1
    have "b \<noteq> None" if "find (\<lambda>(r, n). test r c) (jr (H4 Start)) = Some (a, b)" for a b
      using that by (auto simp: H4_Start split: if_splits)
    then show ?thesis using 1 init_Start(6) [of test tlds utlds customSchemes]
      by (auto simp: go_def init_Start(1,2) split: option.splits)
  next
    case 2
    then show ?thesis by (simp add: go_def init_Start(4) new_State_def)
  next
    case 3
    have "go test (heap (init test tlds utlds customSchemes)) q c = go test (heap ?B) q c"
      by (rule go_cong) (rule init_other [OF 3])
    then show ?thesis using 3 by simp
  qed
qed

lemma el_init:
  "el (heap (init test tlds utlds customSchemes) q) \<longleftrightarrow>
     q \<noteq> count (registered test tlds utlds customSchemes)
     \<and> el (heap (registered test tlds utlds customSchemes) q)"
proof -
  let ?B = "registered test tlds utlds customSchemes"
  consider "q = Start" | "q = count ?B" "q \<noteq> Start" | "q \<noteq> Start" "q \<noteq> count ?B" by blast
  then show ?thesis
  proof cases
    case 1
    then show ?thesis using init_Start(5) [of test tlds utlds customSchemes]
      by (simp add: el_def init_Start(1))
  next
    case 2
    then show ?thesis by (simp add: el_def init_Start(4) new_State_def)
  next
    case 3
    then show ?thesis by (simp add: init_other)
  qed
qed

lemma emoji_ok_init: "emoji_ok test (heap (init test tlds utlds customSchemes))"
proof -
  let ?B = "registered test tlds utlds customSchemes"
  let ?M = "init test tlds utlds customSchemes"
  note D = emoji_okD [OF emoji_ok_registered [of test tlds utlds customSchemes]]
  have 1: "(q = Start \<or> el (heap ?M q)) \<and> c \<noteq> [0x23]"
    if g: "go test (heap ?M) q c = Some n" and e: "el (heap ?M n)" for q c n
  proof -
    have n: "n \<noteq> count ?B" "el (heap ?B n)" using e by (simp_all add: el_init)
    have q: "q \<noteq> count ?B" using g init_Start(5) [of test tlds utlds customSchemes]
      by (auto simp: go_init split: if_splits)
    have "go test (heap ?B) q c = Some n"
      using g n(1) by (auto simp: go_init split: if_splits option.splits)
    from D(1) [OF this n(2)] show ?thesis using q by (simp add: el_init)
  qed
  have 2: "el (heap ?M q)" if a: "t (heap ?M q) = Some EMOJI" for q
  proof -
    have q: "q \<noteq> count ?B" using a by (auto simp: init_Start(4) new_State_def)
    have "t (heap ?B q) = Some EMOJI"
      using a q by (cases "q = Start") (simp_all add: init_Start(1) init_other)
    from D(2) [OF this] show ?thesis using q by (simp add: el_init)
  qed
  have 3: "go test (heap ?M) q c \<noteq> Some Start" for q c
    using D(3) [of q c] init_Start(5) [of test tlds utlds customSchemes]
    by (auto simp: go_init split: option.splits)
  show ?thesis unfolding emoji_ok_def using 1 2 3 by blast
qed

lemma emoji_token_no_pound:
  assumes "run test (init test tlds utlds customSchemes) str = Inr toks" "x \<in> set toks"
    "tok_t x = Some EMOJI"
  shows "0x23 \<notin> set (tok_v x)"
proof
  assume p: "0x23 \<in> set (tok_v x)"
  let ?F = "init test tlds utlds customSchemes"
  let ?it = "stringToArray (toLowerCase_AZ str)"
  have r: "run_with (go test (heap ?F)) (\<lambda>q. t (heap ?F q)) Start str = Inr toks"
    using assms(1) by (simp add: run_def)
  note D = emoji_okD [OF emoji_ok_init [of test tlds utlds customSchemes]]
  let ?R = "{q. q = Start \<or> el (heap ?F q)}"
  have edge: "\<forall>q c n. go test (heap ?F) q c = Some n \<longrightarrow> n \<in> ?R
      \<longrightarrow> q \<in> ?R \<and> c \<notin> {[0x23]}"
    using D(1) D(3) by blast
  have tag: "\<forall>q. t (heap ?F q) = Some EMOJI \<longrightarrow> q \<in> ?R"
    using D(2) by blast
  have "\<forall>y \<in> set toks. tok_t y = Some EMOJI \<longrightarrow> tok_clean ?it {[0x23]} y"
    by (rule run_loop_avoid [OF edge tag _ r [unfolded run_with_def]]) simp_all
  then obtain c0 c1 where c: "0 \<le> c0" "c0 \<le> c1" "c1 \<le> int (length ?it)"
      "tok_s x = off ?it c0" "tok_e x = off ?it c1" "clean ?it {[0x23]} c0 c1"
    using assms(2,3) unfolding tok_clean_def by blast
  have v: "tok_v x = slice str (tok_s x) (tok_e x)"
    using chain_members [OF run_with_chain [OF r] assms(2)] by simp
  have "0x23 \<in> set (toLowerCase_AZ (tok_v x))" using p by (simp add: pound_lower)
  also have "toLowerCase_AZ (tok_v x) = slice (toLowerCase_AZ str) (tok_s x) (tok_e x)"
    unfolding v by (simp add: toLowerCase_AZ_def slice_map)
  also have "toLowerCase_AZ str = concat ?it" by (simp add: stringToArray_chunks concat_chunks)
  also have "slice (concat ?it) (tok_s x) (tok_e x) = concat (take (nat c1 - nat c0) (drop (nat c0) ?it))"
    unfolding c(4,5) by (rule slice_concat [OF c(1,2,3)])
  finally obtain y where y: "y \<in> set (take (nat c1 - nat c0) (drop (nat c0) ?it))" "0x23 \<in> set y"
    by auto
  obtain i where i: "nat c0 \<le> i" "i < nat c0 + (nat c1 - nat c0)" "i < length ?it" "?it ! i = y"
    using in_take_drop [OF y(1)] by blast
  have "y \<in> set (chunks (toLowerCase_AZ str))" using i(3,4) by (auto simp: stringToArray_chunks)
  then have "y = [0x23]" using chunks_pound y(2) by blast
  moreover have "c0 \<le> int i \<and> int i < c1" using i(1,2) c(1,2) by linarith
  then have "?it ! nat (int i) \<notin> {[0x23]}"
    using c(6) unfolding clean_def by blast
  ultimately show False using i(4) by simp
qed

text \<open>Every step out of the start state lands on an accepting state.\<close>

definition start_acc :: "(cls \<Rightarrow> jsstring \<Rightarrow> bool) \<Rightarrow> fsm \<Rightarrow> bool" where
  "start_acc test F \<longleftrightarrow> (\<forall>c n. go test (heap F) Start c = Some n \<longrightarrow> t (heap F n) \<noteq> None)"

lemma start_acc_fixed: "start_acc test (fixed tlds utlds)"
  unfolding start_acc_def
proof (intro allI impI)
  fix c n
  let ?A = "fixed tlds utlds"
  assume g: "go test (heap ?A) Start c = Some n"
  have a: "acc ?A" by (rule reg_acc [OF fixed_reg acc_F4])
  from go_cases [OF g] show "t (heap ?A n) \<noteq> None"
  proof (elim disjE conjE exE)
    assume "j (heap ?A Start) c = Some n"
    then show ?thesis using a by (simp add: acc_def)
  next
    fix r assume "(r, Some n) \<in> set (jr (heap ?A Start))"
    then have "n \<in> {Num, Word, UWord, Ws, Emoji}"
      using fixed_old(2) [of Start tlds utlds] by (auto simp: H4_Start)
    then have "n < 58" "t (H4 n) \<noteq> None" by (auto simp: H4_def)
    then show ?thesis using fixed_old(1) [of n tlds utlds] by simp
  next
    assume "jd (heap ?A Start) = Some n"
    then show ?thesis using fixed_old(3) [of Start tlds utlds] by (simp add: H4_Start)
  qed
qed

lemma start_go_classified:
  assumes "jr (heap F Start) = jr (H4 Start)" "test r c"
  shows "go test (heap F) Start c \<noteq> None"
proof (cases "j (heap F Start) c")
  case (Some n)
  then show ?thesis by (simp add: go_def)
next
  case None
  have "find (\<lambda>(r, n). test r c) (jr (H4 Start)) \<in> {Some (re_DIGIT, Some Num),
      Some (re_ASCII_LETTER, Some Word), Some (re_LETTER, Some UWord), Some (re_SPACE, Some Ws),
      Some (re_EMOJI, Some Emoji)}"
    using assms(2) by (cases r) (auto simp: H4_Start)
  then show ?thesis using None assms(1) by (auto simp: go_def)
qed

lemma start_acc_tt_chain:
  assumes "wf F" "src < count F" "start_acc test F"
    "src = Start \<longrightarrow> tok \<noteq> None \<or> go test (heap F) Start key \<noteq> None"
  shows "start_acc test (snd (tt_chain test F src key tok flags))"
  unfolding start_acc_def
proof (intro allI impI)
  fix c n
  let ?F' = "snd (tt_chain test F src key tok flags)"
  assume g: "go test (heap ?F') Start c = Some n"
  note G = go_tt_chain [OF assms(1,2), of test key tok flags Start c]
  have s: "Start \<noteq> count F" using wfD(1) [OF assms(1)] by simp
  show "t (heap ?F' n) \<noteq> None"
  proof (cases "src = Start \<and> c = key")
    case True
    then have n: "n = count F" using g G by simp
    have "t (template test F src key tok) \<noteq> None"
    proof (cases tok)
      case (Some k)
      then show ?thesis by (simp add: template_fields)
    next
      case None
      then obtain m where m: "go test (heap F) Start key = Some m" using assms(4) True by auto
      then have "t (heap F m) \<noteq> None" using assms(3) by (simp add: start_acc_def)
      then show ?thesis using None m True by (simp add: template_fields)
    qed
    then show ?thesis using n fields_tt_chain(4) [OF assms(2), of test key tok flags] by simp
  next
    case False
    then have g0: "go test (heap F) Start c = Some n" using g G s by (auto split: if_splits)
    then have "n \<noteq> count F" using go_lt(3) [OF assms(1) g0] by simp
    then have "t (heap ?F' n) = t (heap F n)" by (rule fields_tt_chain(2) [OF assms(2)])
    then show ?thesis using assms(3) g0 by (simp add: start_acc_def)
  qed
qed

lemma start_acc_ts_inner:
  "wf F \<Longrightarrow> src < count F \<Longrightarrow> start_acc test F \<Longrightarrow> src \<noteq> Start \<Longrightarrow>
     start_acc test (snd (ts test F src v tok flags))"
proof (induction test F src v tok flags rule: ts.induct)
  case (1 test F src tok flags)
  then show ?case by simp
next
  case (2 test F src c tok flags)
  then show ?case using start_acc_tt_chain [of F src test "Some tok"] by simp
next
  case (3 test F src c v va tok flags)
  let ?S = "tt_chain test F src [c] None []"
  have p: "?S = (count F, snd ?S)" by (metis fst_tt_chain prod.collapse)
  have w: "wf (snd ?S)" by (rule wf_tt_chain [OF "3.prems"(1,2)])
  have c: "count F < count (snd ?S)" by (simp add: count_tt_chain)
  have a: "start_acc test (snd ?S)"
    by (rule start_acc_tt_chain [OF "3.prems"(1,2,3)]) (use "3.prems"(4) in simp)
  have n: "count F \<noteq> Start" using wfD(1) [OF "3.prems"(1)] by simp
  from "3.IH" [OF p [symmetric] refl w c a n] show ?case unfolding ts_Cons2 .
qed

definition classified :: "(cls \<Rightarrow> jsstring \<Rightarrow> bool) \<Rightarrow> jsstring \<Rightarrow> bool" where
  "classified test w \<longleftrightarrow> length w < 2 \<or> (\<exists>r. test r [hd w])"

lemma start_acc_ts:
  assumes "wf F" "start_acc test F" "jr (heap F Start) = jr (H4 Start)" "classified test v"
  shows "start_acc test (snd (ts test F Start v tok flags))"
proof -
  note z = wfD(1) [OF assms(1)]
  show ?thesis
  proof (cases v)
    case Nil
    then show ?thesis using assms(2) by simp
  next
    case (Cons c rest)
    show ?thesis
    proof (cases rest)
      case Nil
      then show ?thesis using Cons start_acc_tt_chain [OF assms(1) z assms(2), of "Some tok"] by simp
    next
      case rest: (Cons d va)
      let ?S = "tt_chain test F Start [c] None []"
      obtain r where "test r [c]" using assms(4) Cons rest by (auto simp: classified_def)
      then have g: "go test (heap F) Start [c] \<noteq> None" by (rule start_go_classified [OF assms(3)])
      have w: "wf (snd ?S)" by (rule wf_tt_chain [OF assms(1) z])
      have c: "count F < count (snd ?S)" by (simp add: count_tt_chain)
      have a: "start_acc test (snd ?S)"
        by (rule start_acc_tt_chain [OF assms(1) z assms(2)]) (use g in simp)
      have n: "count F \<noteq> Start" using z by simp
      from start_acc_ts_inner [OF w c a n] show ?thesis unfolding Cons rest ts_Cons2 .
    qed
  qed
qed

definition schemes_classified :: "(cls \<Rightarrow> jsstring \<Rightarrow> bool) \<Rightarrow> (jsstring \<times> bool) list \<Rightarrow> bool" where
  "schemes_classified test customSchemes \<longleftrightarrow>
     classified test (lit ''localhost'') \<and> list_all (\<lambda>x. classified test (fst x)) customSchemes"

lemma start_jr_ts:
  assumes "wf F"
  shows "jr (heap (snd (ts test F Start v tok flags)) Start) = jr (heap F Start)"
  using ts_frame [OF assms wfD(1) [OF assms], of test v tok flags] by (simp add: frame_def)

lemma start_acc_foldl:
  "wf F \<Longrightarrow> start_acc test F \<Longrightarrow> jr (heap F Start) = jr (H4 Start) \<Longrightarrow>
     \<forall>x \<in> set xs. classified test (fst x) \<Longrightarrow>
     start_acc test (foldl (register_scheme test) F xs)
     \<and> jr (heap (foldl (register_scheme test) F xs) Start) = jr (H4 Start)
     \<and> wf (foldl (register_scheme test) F xs)"
proof (induction xs arbitrary: F)
  case Nil
  then show ?case by simp
next
  case (Cons x xs)
  let ?F = "register_scheme test F x"
  have w: "wf ?F" using ts_frame [OF Cons.prems(1) wfD(1) [OF Cons.prems(1)]]
    by (simp add: register_scheme_def)
  have a: "start_acc test ?F" unfolding register_scheme_def
    by (rule start_acc_ts [OF Cons.prems(1,2,3)]) (use Cons.prems(4) in simp)
  have r: "jr (heap ?F Start) = jr (H4 Start)"
    using start_jr_ts [OF Cons.prems(1)] Cons.prems(3) by (simp add: register_scheme_def)
  from Cons.IH [OF w a r] Cons.prems(4) show ?case by simp
qed

lemma start_acc_registered:
  assumes "schemes_classified test customSchemes"
  shows "start_acc test (registered test tlds utlds customSchemes)"
proof -
  let ?C = "register_customSchemes test (fixed tlds utlds) customSchemes"
  have r: "jr (heap (fixed tlds utlds) Start) = jr (H4 Start)" by (rule fixed_old(2)) simp
  have c: "\<forall>x \<in> set (sort_schemes customSchemes). classified test (fst x)"
    using assms by (simp add: schemes_classified_def list_all_iff)
  note f = start_acc_foldl [OF wf_fixed start_acc_fixed r c]
  have "start_acc test (snd (ts test ?C Start (lit ''localhost'') LOCALHOST [ascii]))"
    by (rule start_acc_ts) (use f assms in \<open>simp_all add: register_customSchemes_def schemes_classified_def\<close>)
  then show ?thesis unfolding init_register_eq .
qed

lemma init_start_accepting:
  assumes "schemes_classified test customSchemes"
  shows "\<exists>n. go test (heap (init test tlds utlds customSchemes)) Start c = Some n
            \<and> t (heap (init test tlds utlds customSchemes) n) \<noteq> None"
proof -
  let ?B = "registered test tlds utlds customSchemes"
  let ?M = "init test tlds utlds customSchemes"
  note a = start_acc_registered [OF assms, of tlds utlds, unfolded start_acc_def]
  show ?thesis
  proof (cases "go test (heap ?B) Start c")
    case None
    then show ?thesis by (simp add: go_init init_Start(4) new_State_def)
  next
    case (Some n)
    have n: "0 < n" "n < count ?B" using go_lt [OF registered_frame(1) Some] by simp_all
    then have "heap ?M n = heap ?B n" by (intro init_other) simp_all
    then show ?thesis using Some a by (simp add: go_init)
  qed
qed

text \<open>
  A code point on which the start state steps to an accepting state without transitions
  is a token of its own.
\<close>

lemma scan_dead:
  assumes "go0 start (iterable ! nat c0) = Some s" "\<forall>c. go0 s c = None" "tg s \<noteq> None"
    "c0 < int (length iterable)"
  shows "scan go0 tg iterable (init_vars start cursor0 c0) =
     \<lparr>state = s, tokenLength = int (length (iterable ! nat c0)), latestAccepting = Some s,
      sinceAccepts = 0, charsSinceAccepts = 0,
      cursor = cursor0 + int (length (iterable ! nat c0)), charCursor = c0 + 1\<rparr>"
  using assms
  by (simp add: scan.simps [of go0 tg iterable] scan_step_def init_vars_def accepts_def Let_def)

definition tok_single :: "jsstring list \<Rightarrow> jsstring set \<Rightarrow> 'tk \<Rightarrow> 'tk token \<Rightarrow> bool" where
  "tok_single iterable B T x \<longleftrightarrow>
     (\<exists>i. 0 \<le> i \<and> i < int (length iterable) \<and> tok_s x = off iterable i
        \<and> (iterable ! nat i \<in> B \<longrightarrow> tok_t x = Some T \<and> tok_e x = off iterable (i + 1)))"

lemma run_loop_single:
  "(\<forall>c \<in> B. go0 start c = Some s) \<Longrightarrow> (\<forall>c. go0 s c = None) \<Longrightarrow> tg s = Some T \<Longrightarrow>
   run_loop go0 tg start str iterable cursor0 c0 tokens = Inr toks \<Longrightarrow>
   0 \<le> c0 \<Longrightarrow> c0 \<le> int (length iterable) \<Longrightarrow> cursor0 = off iterable c0 \<Longrightarrow>
   (\<forall>x \<in> set tokens. tok_single iterable B T x) \<Longrightarrow>
   (\<forall>x \<in> set toks. tok_single iterable B T x)"
proof (induction go0 tg start str iterable cursor0 c0 tokens rule: run_loop.induct)
  case (1 go0 tg start str iterable cursor0 c0 tokens)
  show ?case
  proof (cases "c0 < int (length iterable)")
    case False
    have "toks = tokens" using "1.prems"(4) False
      by (simp add: run_loop.simps [of go0 tg start str iterable cursor0 c0 tokens])
    then show ?thesis using "1.prems"(8) by simp
  next
    case True
    define vs where "vs = scan go0 tg iterable (init_vars start cursor0 c0)"
    define cursor1 where "cursor1 = cursor vs - sinceAccepts vs"
    define c1 where "c1 = charCursor vs - charsSinceAccepts vs"
    define tl1 where "tl1 = tokenLength vs - sinceAccepts vs"
    have pr: "progress c0 vs" unfolding vs_def by (rule progress_scan [OF progress_init])
    have of: "offsets iterable cursor0 c0 vs" unfolding vs_def
      using "1.prems" by (intro offsets_scan offsets_init progress_init) auto
    obtain la where la: "latestAccepting vs = Some la"
      using "1.prems"(4) True
      by (cases "latestAccepting vs")
         (auto simp: run_loop.simps [of go0 tg start str iterable cursor0 c0 tokens] vs_def Let_def)
    define tok where "tok = \<lparr>tok_t = tg la, tok_v = slice str (cursor1 - tl1) cursor1,
                                 tok_s = cursor1 - tl1, tok_e = cursor1\<rparr>"
    have rec: "run_loop go0 tg start str iterable cursor1 c1 (tokens @ [tok]) = Inr toks"
      using "1.prems"(4) True la
      by (simp add: run_loop.simps [of go0 tg start str iterable cursor0 c0 tokens] Let_def
          vs_def [symmetric] cursor1_def c1_def tl1_def tok_def)
    have c1: "c0 < c1" "c1 \<le> int (length iterable)" "0 \<le> c1"
      using pr of la "1.prems" by (auto simp: progress_def offsets_def c1_def)
    have cur1: "cursor1 = off iterable c1"
      using pr of la "1.prems" by (auto simp: progress_def offsets_def c1_def cursor1_def)
    have st: "cursor1 - tl1 = cursor0"
      using of by (simp add: offsets_def cursor1_def tl1_def)
    have "tok_t tok = Some T \<and> tok_e tok = off iterable (c0 + 1)" if b: "iterable ! nat c0 \<in> B"
    proof -
      have g: "go0 start (iterable ! nat c0) = Some s" using b "1.prems"(1) by simp
      have "vs = \<lparr>state = s, tokenLength = int (length (iterable ! nat c0)), latestAccepting = Some s,
          sinceAccepts = 0, charsSinceAccepts = 0,
          cursor = cursor0 + int (length (iterable ! nat c0)), charCursor = c0 + 1\<rparr>"
        unfolding vs_def by (rule scan_dead [OF g "1.prems"(2) _ True]) (simp add: "1.prems"(3))
      then show ?thesis using la "1.prems"(3,5,7) off_Suc [OF "1.prems"(5) True]
        by (simp add: tok_def cursor1_def)
    qed
    then have "tok_single iterable B T tok" unfolding tok_single_def
      using "1.prems"(5,7) True st by (intro exI [of _ c0]) (simp add: tok_def)
    then have "\<forall>x \<in> set (tokens @ [tok]). tok_single iterable B T x"
      using "1.prems"(8) by auto
    from "1.IH" [OF True vs_def cursor1_def c1_def tl1_def la "1.prems"(1,2,3) _ c1(3) c1(2) cur1]
      rec this
    show ?thesis by (simp add: tok_def)
  qed
qed

text \<open>The code points that only the default transition of the start state takes.\<close>

definition unclassified :: "(cls \<Rightarrow> jsstring \<Rightarrow> bool) \<Rightarrow> fsm \<Rightarrow> jsstring set" where
  "unclassified test F = {c. j (heap F Start) c = None \<and> (\<forall>r. \<not> test r c)}"

lemma init_default:
  "jd (heap (init test tlds utlds customSchemes) Start)
     = Some (count (registered test tlds utlds customSchemes))"
  "t (heap (init test tlds utlds customSchemes) (count (registered test tlds utlds customSchemes)))
     = Some SYM"
  "go test (heap (init test tlds utlds customSchemes))
     (count (registered test tlds utlds customSchemes)) c = None"
  "c \<in> unclassified test (init test tlds utlds customSchemes) \<Longrightarrow>
     go test (heap (init test tlds utlds customSchemes)) Start c
       = Some (count (registered test tlds utlds customSchemes))"
  by (simp_all add: init_Start(1,2,4) new_State_def go_def H4_Start unclassified_def)


text \<open>The first node of a word that \<open>ts\<close> registers, when the word has more characters.\<close>

lemma ts_first_node:
  assumes "wf F"
  shows "j (heap (snd (ts test F Start (c # d # rest) tok flags)) Start) [c] = Some (count F)"
    "t (heap (snd (ts test F Start (c # d # rest) tok flags)) (count F)) =
       (case go test (heap F) Start [c] of Some m \<Rightarrow> t (heap F m) | None \<Rightarrow> None)"
proof -
  let ?S = "tt_chain test F Start [c] None []"
  let ?F' = "snd (ts test (snd ?S) (count F) (d # rest) tok flags)"
  note z = wfD(1) [OF assms]
  have w: "wf (snd ?S)" by (rule wf_tt_chain [OF assms z])
  have c: "count F < count (snd ?S)" by (simp add: count_tt_chain)
  have f: "frame (count F) {[d]} (snd ?S) ?F'" using ts_frame [OF w c, of test "d # rest" tok flags] by simp
  have s: "heap ?F' Start = heap (snd ?S) Start"
    using f z c by (simp add: frame_def)
  have "j (heap (snd ?S) Start) [c] = Some (count F)" using z by (simp add: heap_tt_chain heap_link)
  then show "j (heap (snd (ts test F Start (c # d # rest) tok flags)) Start) [c] = Some (count F)"
    unfolding ts_Cons2 using s by simp
  have "t (heap ?F' (count F)) = t (heap (snd ?S) (count F))" using f by (simp add: frame_def)
  then show "t (heap (snd (ts test F Start (c # d # rest) tok flags)) (count F)) =
       (case go test (heap F) Start [c] of Some m \<Rightarrow> t (heap F m) | None \<Rightarrow> None)"
    unfolding ts_Cons2 using fields_tt_chain(4) [OF z, of test "[c]" None "[]"]
    by (simp add: template_fields)
qed

lemma J1_l: "J1 [0x6c] = None"
  by (simp add: J1_def symbols_def upt_1_42)

lemma localhost_first:
  "go ascii_classes (heap (init ascii_classes [] [] [])) Start [0x6c]
     = Some (count (fixed [] []))"
  "t (heap (init ascii_classes [] [] []) (count (fixed [] []))) = Some WORD"
proof -
  let ?A = "fixed [] []"
  let ?B = "registered ascii_classes [] [] []"
  have i: "inv {} {[0x6c]} H4 ?A"
    by (rule reg_inv [OF register_fixed_reg [OF inv_F4_keys, where b = True]]) simp_all
  have "j (heap ?A Start) [0x6c] = None" using invD(5) [OF i, of "[0x6c]"] by (simp add: H4_Start J1_l)
  then have g: "go ascii_classes (heap ?A) Start [0x6c] = Some Word"
    using fixed_old(2,3) [of Start "[]" "[]"] by (simp add: go_def H4_Start ascii_classes_def)
  have w: "t (heap ?A Word) = Some WORD" by (simp add: fixed_class_state class_states_def H4_def)
  have e: "?B = snd (ts ascii_classes ?A Start (lit ''localhost'') LOCALHOST [ascii])"
    by (simp add: init_register_eq register_customSchemes_def sort_schemes_def)
  have l: "lit ''localhost'' = 0x6c # 0x6f # lit ''calhost''" by (simp add: lit_def)
  note f = ts_first_node [OF wf_fixed, of ascii_classes "[]" "[]" "0x6c" "0x6f" "lit ''calhost''" LOCALHOST "[ascii]"]
  have 1: "j (heap ?B Start) [0x6c] = Some (count ?A)" unfolding e l using f(1) by simp
  have 2: "t (heap ?B (count ?A)) = Some WORD" unfolding e l using f(2) g w by simp
  have c: "0 < count ?A" "count ?A < count ?B"
    using fixed_count [of "[]" "[]"] unfolding e l ts_Cons2
    using ts_frame [OF wf_tt_chain [OF wf_fixed, of Start "[]" "[]" ascii_classes "[0x6c]" None "[]"],
        of "count ?A" ascii_classes "0x6f # lit ''calhost''" LOCALHOST "[ascii]"]
    by (simp_all add: frame_def count_tt_chain)
  show "go ascii_classes (heap (init ascii_classes [] [] [])) Start [0x6c] = Some (count ?A)"
    using 1 by (simp add: go_def init_Start(1))
  show "t (heap (init ascii_classes [] [] []) (count ?A)) = Some WORD"
    using 2 c by (simp add: init_other)
qed

lemma schemes_classified_empty: "schemes_classified ascii_classes []"
  by (simp add: schemes_classified_def classified_def lit_def ascii_classes_def exI [of _ re_ASCII_LETTER])


text \<open>The node that the literal edges spelling a word lead to.\<close>

fun walk :: "(nat \<Rightarrow> State) \<Rightarrow> nat \<Rightarrow> jsstring \<Rightarrow> nat option" where
  "walk H q [] = Some q"
| "walk H q (c # cs) = (case j (H q) [c] of None \<Rightarrow> None | Some n \<Rightarrow> walk H n cs)"

text \<open>The nodes below an address, when their edges stay below it.\<close>

definition below :: "nat \<Rightarrow> (nat \<Rightarrow> State) \<Rightarrow> bool" where
  "below c0 H \<longleftrightarrow> (\<forall>q. 0 < q \<and> q < c0 \<longrightarrow> tgts (H q) \<subseteq> {n. 0 < n \<and> n < c0})"

lemma j_tgts: "j st c = Some n \<Longrightarrow> n \<in> tgts st"
  by (auto simp: tgts_def ran_def)

lemma walk_below:
  assumes "below c0 H" "\<forall>q. 0 < q \<and> q < c0 \<longrightarrow> H' q = H q"
  shows "0 < b \<Longrightarrow> b < c0 \<Longrightarrow> walk H' b u = walk H b u"
proof (induction u arbitrary: b)
  case Nil
  then show ?case by simp
next
  case (Cons x us)
  have e: "H' b = H b" using assms(2) Cons.prems by simp
  show ?case
  proof (cases "j (H b) [x]")
    case None
    then show ?thesis using e by simp
  next
    case (Some b2)
    have "0 < b2 \<and> b2 < c0" using assms(1) Cons.prems j_tgts [OF Some] by (auto simp: below_def)
    then show ?thesis using Cons.IH [of b2] Some e by simp
  qed
qed

lemma walk_below_in:
  assumes "below c0 H"
  shows "0 < b \<Longrightarrow> b < c0 \<Longrightarrow> walk H b u = Some a \<Longrightarrow> 0 < a \<and> a < c0"
proof (induction u arbitrary: b)
  case Nil
  then show ?case by simp
next
  case (Cons x us)
  obtain b2 where b2: "j (H b) [x] = Some b2" "walk H b2 us = Some a"
    using Cons.prems(3) by (auto split: option.splits)
  have "0 < b2 \<and> b2 < c0" using assms Cons.prems(1,2) j_tgts [OF b2(1)] by (auto simp: below_def)
  then show ?case using Cons.IH [OF _ _ b2(2)] by simp
qed

text \<open>
  The tags along the literal paths are what a registration by \<open>ts\<close> keeps: a path that
  was there still leads to a node with the tag and the class edges it had, except the
  path of the registered word, which now ends in its token.
\<close>

lemma ts_walk_keep:
  "wf F \<Longrightarrow> src < count F \<Longrightarrow> below c0 (heap F) \<Longrightarrow> c0 \<le> count F \<Longrightarrow>
   src = Start \<or> c0 \<le> src \<Longrightarrow> tgts (heap F src) \<subseteq> {n. 0 < n \<and> n < c0} \<Longrightarrow>
   walk (heap F) src u = Some a \<Longrightarrow> u \<noteq> [] \<Longrightarrow>
   \<exists>a'. walk (heap (snd (ts test F src v tok flags))) src u = Some a'
      \<and> jr (heap (snd (ts test F src v tok flags)) a') = jr (heap F a)
      \<and> t (heap (snd (ts test F src v tok flags)) a') = (if u = v then Some tok else t (heap F a))"
proof (induction test F src v tok flags arbitrary: u a rule: ts.induct)
  case (1 test F src tok flags)
  then show ?case by simp
next
  case (2 test F src c tok flags)
  let ?F' = "snd (tt_chain test F src [c] (Some tok) flags)"
  obtain x us where u: "u = x # us" using "2.prems"(8) by (cases u) auto
  obtain b where b: "j (heap F src) [x] = Some b" "walk (heap F) b us = Some a"
    using "2.prems"(7) unfolding u by (auto split: option.splits)
  have bo: "0 < b" "b < c0" using "2.prems"(6) j_tgts [OF b(1)] by auto
  have old: "\<forall>q. 0 < q \<and> q < c0 \<longrightarrow> heap ?F' q = heap F q"
    using "2.prems"(2,4,5) by (auto simp: heap_tt_chain heap_link)
  have ao: "0 < a" "a < c0" using walk_below_in [OF "2.prems"(3) bo b(2)] by simp_all
  have s: "j (heap ?F' src) = (j (heap F src))([c] \<mapsto> count F)"
    using "2.prems"(2) by (simp add: heap_tt_chain heap_link)
  show ?case
  proof (cases "x = c")
    case False
    have "walk (heap ?F') src u = walk (heap ?F') b us" using s b(1) False by (simp add: u)
    also have "\<dots> = Some a" using walk_below [OF "2.prems"(3) old bo] b(2) by simp
    finally show ?thesis using old ao False by (auto simp: u)
  next
    case True
    have g: "go test (heap F) src [c] = Some b" using b(1) True by (simp add: go_def)
    have n: "heap ?F' (count F) = (heap F b)\<lparr>t := Some tok\<rparr>"
      using fields_tt_chain(4) [OF "2.prems"(2), of test "[c]" "Some tok" flags] g
      by (simp add: template_def)
    show ?thesis
    proof (cases us)
      case Nil
      then have "a = b" using b(2) by simp
      then show ?thesis using s n True Nil by (simp add: u)
    next
      case (Cons y ys)
      obtain b2 where b2: "j (heap F b) [y] = Some b2" "walk (heap F) b2 ys = Some a"
        using b(2) unfolding Cons by (auto split: option.splits)
      have b2o: "0 < b2" "b2 < c0"
        using "2.prems"(3) bo j_tgts [OF b2(1)] by (auto simp: below_def)
      have "walk (heap ?F') src u = walk (heap ?F') b2 ys"
        using s n b2(1) True by (simp add: u Cons)
      also have "\<dots> = Some a" using walk_below [OF "2.prems"(3) old b2o] b2(2) by simp
      finally show ?thesis using old ao Cons by (auto simp: u)
    qed
  qed
next
  case (3 test F src c d rest tok flags)
  let ?S = "tt_chain test F src [c] None []"
  let ?F1 = "snd ?S"
  let ?F' = "snd (ts test ?F1 (count F) (d # rest) tok flags)"
  have p: "?S = (count F, ?F1)" by (metis fst_tt_chain prod.collapse)
  have w1: "wf ?F1" by (rule wf_tt_chain [OF "3.prems"(1,2)])
  have c1: "count F < count ?F1" by (simp add: count_tt_chain)
  have old1: "\<forall>q. 0 < q \<and> q < c0 \<longrightarrow> heap ?F1 q = heap F q"
    using "3.prems"(2,4,5) by (auto simp: heap_tt_chain heap_link)
  have be1: "below c0 (heap ?F1)" using "3.prems"(3) old1 by (simp add: below_def)
  have f: "frame (count F) {[d]} ?F1 ?F'"
    using ts_frame [OF w1 c1, of test "d # rest" tok flags] by simp
  have old': "\<forall>q. 0 < q \<and> q < c0 \<longrightarrow> heap ?F' q = heap F q"
    using f old1 "3.prems"(4) c1 by (auto simp: frame_def)
  have s1: "j (heap ?F1 src) = (j (heap F src))([c] \<mapsto> count F)"
    using "3.prems"(2) by (simp add: heap_tt_chain heap_link)
  have s': "heap ?F' src = heap ?F1 src" using f "3.prems"(2) c1 by (auto simp: frame_def)
  obtain x us where u: "u = x # us" using "3.prems"(8) by (cases u) auto
  obtain b where b: "j (heap F src) [x] = Some b" "walk (heap F) b us = Some a"
    using "3.prems"(7) unfolding u by (auto split: option.splits)
  have bo: "0 < b" "b < c0" using "3.prems"(6) j_tgts [OF b(1)] by auto
  have ao: "0 < a" "a < c0" using walk_below_in [OF "3.prems"(3) bo b(2)] by simp_all
  show ?case unfolding ts_Cons2
  proof (cases "x = c")
    case False
    have "walk (heap ?F') src u = walk (heap ?F') b us" using s' s1 b(1) False by (simp add: u)
    also have "\<dots> = Some a" using walk_below [OF "3.prems"(3) old' bo] b(2) by simp
    finally show "\<exists>a'. walk (heap ?F') src u = Some a' \<and> jr (heap ?F' a') = jr (heap F a)
        \<and> t (heap ?F' a') = (if u = c # d # rest then Some tok else t (heap F a))"
      using old' ao False by (auto simp: u)
  next
    case True
    have g: "go test (heap F) src [c] = Some b" using b(1) True by (simp add: go_def)
    have n1: "heap ?F1 (count F) = heap F b"
      using fields_tt_chain(4) [OF "3.prems"(2), of test "[c]" None "[]"] g
      by (simp add: template_def)
    have e: "walk (heap ?F') src u = walk (heap ?F') (count F) us"
      using s' s1 True by (simp add: u)
    show "\<exists>a'. walk (heap ?F') src u = Some a' \<and> jr (heap ?F' a') = jr (heap F a)
        \<and> t (heap ?F' a') = (if u = c # d # rest then Some tok else t (heap F a))"
    proof (cases us)
      case Nil
      then have ab: "a = b" using b(2) by simp
      have "jr (heap ?F' (count F)) = jr (heap F b)" "t (heap ?F' (count F)) = t (heap F b)"
        using f n1 by (simp_all add: frame_def)
      then show ?thesis using e Nil ab True by (simp add: u)
    next
      case (Cons y ys)
      obtain b2 where b2: "j (heap F b) [y] = Some b2" "walk (heap F) b2 ys = Some a"
        using b(2) unfolding Cons by (auto split: option.splits)
      have b2o: "0 < b2" "b2 < c0"
        using "3.prems"(3) bo j_tgts [OF b2(1)] by (auto simp: below_def)
      have "walk (heap ?F1) (count F) us = walk (heap ?F1) b2 ys" using n1 b2(1) by (simp add: Cons)
      also have "\<dots> = Some a"
        using walk_below [OF "3.prems"(3), of "heap ?F1" b2 ys] old1 b2o b2(2) by simp
      finally have wk: "walk (heap ?F1) (count F) us = Some a" .
      have tg: "tgts (heap ?F1 (count F)) \<subseteq> {n. 0 < n \<and> n < c0}"
        using n1 "3.prems"(3) bo by (auto simp: below_def)
      have "us \<noteq> []" using Cons by simp
      from "3.IH" [OF p [symmetric] refl w1 c1 be1 _ _ tg wk this]
      obtain a' where a': "walk (heap ?F') (count F) us = Some a'"
        "jr (heap ?F' a') = jr (heap ?F1 a)"
        "t (heap ?F' a') = (if us = d # rest then Some tok else t (heap ?F1 a))"
        using "3.prems"(4) c1 by auto
      have "heap ?F1 a = heap F a" using old1 ao by simp
      then show ?thesis using e a' True by (auto simp: u)
    qed
  qed
qed

lemma ts_walk_new:
  "wf F \<Longrightarrow> src < count F \<Longrightarrow> v \<noteq> [] \<Longrightarrow>
   \<exists>n. walk (heap (snd (ts test F src v tok flags))) src v = Some n
      \<and> t (heap (snd (ts test F src v tok flags)) n) = Some tok"
proof (induction test F src v tok flags rule: ts.induct)
  case (1 test F src tok flags)
  then show ?case by simp
next
  case (2 test F src c tok flags)
  let ?F' = "snd (tt_chain test F src [c] (Some tok) flags)"
  have "j (heap ?F' src) [c] = Some (count F)"
    using "2.prems"(2) by (simp add: heap_tt_chain heap_link)
  moreover have "t (heap ?F' (count F)) = Some tok"
    using fields_tt_chain(4) [OF "2.prems"(2), of test "[c]" "Some tok" flags]
    by (simp add: template_fields)
  ultimately show ?case by simp
next
  case (3 test F src c d rest tok flags)
  let ?S = "tt_chain test F src [c] None []"
  let ?F1 = "snd ?S"
  let ?F' = "snd (ts test ?F1 (count F) (d # rest) tok flags)"
  have p: "?S = (count F, ?F1)" by (metis fst_tt_chain prod.collapse)
  have w1: "wf ?F1" by (rule wf_tt_chain [OF "3.prems"(1,2)])
  have c1: "count F < count ?F1" by (simp add: count_tt_chain)
  have f: "frame (count F) {[d]} ?F1 ?F'"
    using ts_frame [OF w1 c1, of test "d # rest" tok flags] by simp
  have "heap ?F' src = heap ?F1 src" using f "3.prems"(2) c1 by (auto simp: frame_def)
  then have "j (heap ?F' src) [c] = Some (count F)"
    using "3.prems"(2) by (simp add: heap_tt_chain heap_link)
  then show ?case unfolding ts_Cons2 using "3.IH" [OF p [symmetric] refl w1 c1] by simp
qed

lemma below_wf: "wf F \<Longrightarrow> below (count F) (heap F)"
  using wfD(2) by (auto simp: below_def)

lemma ts_keep_Start:
  assumes "wf F" "walk (heap F) Start u = Some a" "u \<noteq> []"
  shows "\<exists>a'. walk (heap (snd (ts test F Start v tok flags))) Start u = Some a'
      \<and> jr (heap (snd (ts test F Start v tok flags)) a') = jr (heap F a)
      \<and> t (heap (snd (ts test F Start v tok flags)) a') = (if u = v then Some tok else t (heap F a))"
proof -
  note z = wfD(1) [OF assms(1)]
  have "tgts (heap F Start) \<subseteq> {n. 0 < n \<and> n < count F}" using wfD(2) [OF assms(1) z] by auto
  from ts_walk_keep [OF assms(1) z below_wf [OF assms(1)] _ _ this assms(2,3)]
  show ?thesis by simp
qed

definition tag_at :: "(nat \<Rightarrow> State) \<Rightarrow> jsstring \<Rightarrow> tk \<Rightarrow> bool" where
  "tag_at H u tok \<longleftrightarrow> (\<exists>n. walk H Start u = Some n \<and> t (H n) = Some tok)"

lemma tag_at_ts_keep:
  assumes "wf F" "tag_at (heap F) u tok0" "u \<noteq> []" "u \<noteq> v \<or> tok0 = tok"
  shows "tag_at (heap (snd (ts test F Start v tok flags))) u tok0"
proof -
  obtain a where a: "walk (heap F) Start u = Some a" "t (heap F a) = Some tok0"
    using assms(2) by (auto simp: tag_at_def)
  from ts_keep_Start [OF assms(1) a(1) assms(3), of test v tok flags] a(2) assms(4)
  show ?thesis unfolding tag_at_def by (auto split: if_splits)
qed

lemma tag_at_ts_new:
  assumes "wf F" "v \<noteq> []"
  shows "tag_at (heap (snd (ts test F Start v tok flags))) v tok"
  unfolding tag_at_def by (rule ts_walk_new [OF assms(1) wfD(1) [OF assms(1)] assms(2)])

lemma wf_register_scheme: "wf F \<Longrightarrow> wf (register_scheme test F x)"
  using ts_frame [of F Start] wfD(1) [of F] by (simp add: register_scheme_def)

lemma foldl_scheme_tag:
  "wf F \<Longrightarrow> s \<noteq> [] \<Longrightarrow> tag_at (heap F) s (Custom s) \<or> s \<in> fst ` set xs \<Longrightarrow>
     tag_at (heap (foldl (register_scheme test) F xs)) s (Custom s)"
proof (induction xs arbitrary: F)
  case Nil
  then show ?case by simp
next
  case (Cons x xs)
  let ?F = "register_scheme test F x"
  have w: "wf ?F" by (rule wf_register_scheme [OF Cons.prems(1)])
  have "tag_at (heap ?F) s (Custom s) \<or> s \<in> fst ` set xs"
  proof (cases "fst x = s")
    case True
    then have "tag_at (heap ?F) s (Custom s)"
      unfolding register_scheme_def using tag_at_ts_new [OF Cons.prems(1,2)] by simp
    then show ?thesis by simp
  next
    case False
    show ?thesis
    proof (cases "tag_at (heap F) s (Custom s)")
      case True
      then have "tag_at (heap ?F) s (Custom s)" unfolding register_scheme_def
        using False by (intro tag_at_ts_keep [OF Cons.prems(1) _ Cons.prems(2)]) auto
      then show ?thesis by simp
    next
      case False2: False
      then show ?thesis using Cons.prems(3) False by auto
    qed
  qed
  from Cons.IH [OF w Cons.prems(2) this] show ?case by simp
qed

lemma groups_ts_new:
  "wf F \<Longrightarrow> src < count F \<Longrightarrow> v \<noteq> [] \<Longrightarrow> k \<in> set flags \<Longrightarrow>
     tok \<in> set (groups (snd (ts test F src v tok flags)) k)"
proof (induction test F src v tok flags rule: ts.induct)
  case (1 test F src tok flags)
  then show ?case by simp
next
  case (2 test F src c tok flags)
  then show ?case by (simp add: groups_tt_chain)
next
  case (3 test F src c d rest tok flags)
  let ?S = "tt_chain test F src [c] None []"
  have p: "?S = (count F, snd ?S)" by (metis fst_tt_chain prod.collapse)
  have w1: "wf (snd ?S)" by (rule wf_tt_chain [OF "3.prems"(1,2)])
  have c1: "count F < count (snd ?S)" by (simp add: count_tt_chain)
  from "3.IH" [OF p [symmetric] refl w1 c1 _ "3.prems"(4)] show ?case unfolding ts_Cons2 by simp
qed

lemma foldl_scheme_groups:
  "wf F \<Longrightarrow> (s, opt) \<in> set xs \<Longrightarrow> s \<noteq> [] \<Longrightarrow> k \<in> set (scheme_flags test s opt) \<Longrightarrow>
     Custom s \<in> set (groups (foldl (register_scheme test) F xs) k)"
proof (induction xs arbitrary: F)
  case Nil
  then show ?case by simp
next
  case (Cons x xs)
  let ?F = "register_scheme test F x"
  have w: "wf ?F" by (rule wf_register_scheme [OF Cons.prems(1)])
  show ?case
  proof (cases "(s, opt) \<in> set xs")
    case True
    from Cons.IH [OF w True Cons.prems(3,4)] show ?thesis by simp
  next
    case False
    then have x: "x = (s, opt)" using Cons.prems(2) by simp
    have "Custom s \<in> set (groups ?F k)" unfolding register_scheme_def x
      using groups_ts_new [OF Cons.prems(1) wfD(1) [OF Cons.prems(1)] Cons.prems(3)] Cons.prems(4)
      by simp
    moreover have "set (groups ?F k) \<subseteq> set (groups (foldl (register_scheme test) ?F xs) k)"
      using foldl_scheme_frame [OF w, of test xs] by (simp add: frame_def)
    ultimately show ?thesis by auto
  qed
qed

lemma walk_j_cong: "(\<And>q. j (H q) = j (H' q)) \<Longrightarrow> walk H q u = walk H' q u"
  by (induction u arbitrary: q) (simp_all split: option.splits)

lemma walk_init:
  "walk (heap (init test tlds utlds customSchemes)) q u
     = walk (heap (registered test tlds utlds customSchemes)) q u"
proof (rule walk_j_cong)
  fix q
  let ?B = "registered test tlds utlds customSchemes"
  consider "q = Start" | "q = count ?B" "q \<noteq> Start" | "q \<noteq> Start" "q \<noteq> count ?B" by blast
  then show "j (heap (init test tlds utlds customSchemes) q) = j (heap ?B q)"
  proof cases
    case 1
    then show ?thesis by (simp add: init_Start(1))
  next
    case 2
    have "heap ?B (count ?B) = new_State None" by (rule wfD(3) [OF registered_frame(1)]) simp
    then show ?thesis using 2 by (simp add: init_Start(4) new_State_def)
  next
    case 3
    then show ?thesis by (simp add: init_other)
  qed
qed

lemma walk_lt:
  assumes "wf F" "walk (heap F) Start u = Some n" "u \<noteq> []"
  shows "0 < n \<and> n < count F"
proof -
  obtain x us where u: "u = x # us" using assms(3) by (cases u) auto
  obtain b where b: "j (heap F Start) [x] = Some b" "walk (heap F) b us = Some n"
    using assms(2) unfolding u by (auto split: option.splits)
  have "0 < b \<and> b < count F" using wfD(2) [OF assms(1) wfD(1) [OF assms(1)] j_tgts [OF b(1)]] .
  then show ?thesis using walk_below_in [OF below_wf [OF assms(1)] _ _ b(2)] by simp
qed

lemma tag_at_init:
  assumes "tag_at (heap (registered test tlds utlds customSchemes)) u tok" "u \<noteq> []"
  shows "tag_at (heap (init test tlds utlds customSchemes)) u tok"
proof -
  let ?B = "registered test tlds utlds customSchemes"
  obtain n where n: "walk (heap ?B) Start u = Some n" "t (heap ?B n) = Some tok"
    using assms(1) by (auto simp: tag_at_def)
  have "0 < n \<and> n < count ?B" by (rule walk_lt [OF registered_frame(1) n(1) assms(2)])
  then have "heap (init test tlds utlds customSchemes) n = heap ?B n" by (intro init_other) simp_all
  then show ?thesis using n by (auto simp: tag_at_def walk_init)
qed

lemma groups_init_mono:
  "set (groups (registered test tlds utlds customSchemes) k)
     \<subseteq> set (groups (init test tlds utlds customSchemes) k)"
  by (simp add: init_eq groups_set_default)

lemma scheme_registered:
  assumes "(s, opt) \<in> set customSchemes" "s \<noteq> []" "s \<noteq> lit ''localhost''"
  shows "tag_at (heap (init test tlds utlds customSchemes)) s (Custom s)"
    "k \<in> set (scheme_flags test s opt) \<Longrightarrow> Custom s \<in> set (groups (init test tlds utlds customSchemes) k)"
proof -
  let ?A = "fixed tlds utlds"
  let ?C = "register_customSchemes test ?A customSchemes"
  let ?B = "registered test tlds utlds customSchemes"
  have w: "wf ?C"
    using foldl_scheme_frame [OF wf_fixed, where xs = "sort_schemes customSchemes"]
    by (simp add: register_customSchemes_def)
  have m: "(s, opt) \<in> set (sort_schemes customSchemes)" using assms(1) by simp
  then have "s \<in> fst ` set (sort_schemes customSchemes)" by force
  then have "tag_at (heap ?C) s (Custom s)" unfolding register_customSchemes_def
    by (intro foldl_scheme_tag [OF wf_fixed assms(2)]) simp
  then have "tag_at (heap ?B) s (Custom s)" unfolding init_register_eq
    using assms(3) by (intro tag_at_ts_keep [OF w _ assms(2)]) auto
  then show "tag_at (heap (init test tlds utlds customSchemes)) s (Custom s)"
    by (rule tag_at_init [OF _ assms(2)])
  assume k: "k \<in> set (scheme_flags test s opt)"
  have "Custom s \<in> set (groups ?C k)" unfolding register_customSchemes_def
    by (rule foldl_scheme_groups [OF wf_fixed m assms(2) k])
  moreover have "set (groups ?C k) \<subseteq> set (groups ?B k)" unfolding init_register_eq
    using ts_frame [OF w wfD(1) [OF w], of test "lit ''localhost''" LOCALHOST "[ascii]"]
    by (simp add: frame_def)
  ultimately show "Custom s \<in> set (groups (init test tlds utlds customSchemes) k)"
    using groups_init_mono by blast
qed

lemma insert_scheme_le:
  "\<forall>b \<in> set bs. fst a \<le> fst b \<Longrightarrow> insert_scheme a bs = a # bs"
  by (cases bs) (auto simp: compare_schemes_def)

lemma sort_schemes_sorted: "sorted (map fst cs) \<Longrightarrow> sort_schemes cs = cs"
proof (induction cs)
  case Nil
  then show ?case by (simp add: sort_schemes_def)
next
  case (Cons a cs)
  then have "sort_schemes cs = cs" "\<forall>b \<in> set cs. fst a \<le> fst b" by auto
  then show ?case using insert_scheme_le [of cs a] by (simp add: sort_schemes_def)
qed

lemma sort_schemes_idem: "sort_schemes (sort_schemes cs) = sort_schemes cs"
  by (rule sort_schemes_sorted [OF sorted_sort_schemes])



lemma class_nodes:
  "heap (init test tlds utlds customSchemes) Num =
     \<lparr>j = Map.empty,
      jr = [(re_DIGIT, Some Num), (re_ASCII_LETTER, Some Asciinumeric), (re_LETTER, Some Alphanumeric)],
      jd = None, t = Some NUM\<rparr>"
  "heap (init test tlds utlds customSchemes) Asciinumeric =
     \<lparr>j = Map.empty, jr = [(re_DIGIT, Some Asciinumeric), (re_ASCII_LETTER, Some Asciinumeric)],
      jd = None, t = Some ASCIINUMERICAL\<rparr>"
  "heap (init test tlds utlds customSchemes) Word =
     \<lparr>j = Map.empty, jr = [(re_DIGIT, Some Asciinumeric), (re_ASCII_LETTER, Some Word)],
      jd = None, t = Some WORD\<rparr>"
  "heap (init test tlds utlds customSchemes) Emoji =
     \<lparr>j = Map.empty([0x23] \<mapsto> 55, EMOJI_VARIATION \<mapsto> Emoji, EMOJI_JOINER \<mapsto> EmojiJoiner),
      jr = [(re_EMOJI, Some Emoji)], jd = None, t = Some EMOJI\<rparr>"
  "heap (init test tlds utlds customSchemes) EmojiJoiner =
     \<lparr>j = Map.empty([0x23] \<mapsto> 57), jr = [(re_EMOJI, Some Emoji)], jd = None, t = None\<rparr>"
  "heap (init test tlds utlds customSchemes) 55 = new_State None"
  "heap (init test tlds utlds customSchemes) 57 = new_State None"
  by (simp_all add: init_class_state class_states_def H4_def)

text \<open>
  Claim C7, amended. On a DIGIT character the Word state steps to the accepting state tagged
  ASCIINUMERICAL, and that state loops on DIGIT and on ASCII_LETTER. The Num state does not:
  \<open>tr(Num, re.DIGIT, Num)\<close> is registered first, so a DIGIT keeps the machine in Num,
  tagged NUM; it is an ASCII_LETTER (that is no DIGIT) that takes Num to the same
  ASCIINUMERICAL state.
\<close>

theorem asciinumeric_transitions:
  "(test re_DIGIT c \<longrightarrow>
      go test (heap (init test tlds utlds customSchemes)) Word c = Some Asciinumeric
      \<and> go test (heap (init test tlds utlds customSchemes)) Num c = Some Num)
   \<and> (\<not> test re_DIGIT c \<and> test re_ASCII_LETTER c \<longrightarrow>
      go test (heap (init test tlds utlds customSchemes)) Num c = Some Asciinumeric)
   \<and> t (heap (init test tlds utlds customSchemes) Asciinumeric) = Some ASCIINUMERICAL
   \<and> t (heap (init test tlds utlds customSchemes) Num) = Some NUM
   \<and> (test re_DIGIT c \<or> test re_ASCII_LETTER c \<longrightarrow>
      go test (heap (init test tlds utlds customSchemes)) Asciinumeric c = Some Asciinumeric)"
  by (simp add: go_def class_nodes)

theorem asciinumeric_transitions_witness:
  "ascii_classes re_DIGIT [0x37]
   \<and> go ascii_classes (heap (init ascii_classes [] [] [])) Word [0x37] = Some Asciinumeric
   \<and> go ascii_classes (heap (init ascii_classes [] [] [])) Asciinumeric [0x37] = Some Asciinumeric"
  using asciinumeric_transitions [of ascii_classes "[0x37]" "[]" "[]" "[]"]
  by (simp add: ascii_classes_def)

theorem digit_from_num_counterexample:
  "go ascii_classes (heap (init ascii_classes [] [] [])) Num [0x37] = Some Num
   \<and> t (heap (init ascii_classes [] [] []) Num) \<noteq> Some ASCIINUMERICAL"
  by (simp add: go_def class_nodes ascii_classes_def)

lemma line_go:
  assumes "no_line_break_words tlds utlds customSchemes"
  shows "go test (heap (init test tlds utlds customSchemes)) Start LF = Some Nl"
    "go test (heap (init test tlds utlds customSchemes)) Start CR = Some Cr"
    "go test (heap (init test tlds utlds customSchemes)) Cr LF = Some Nl"
    "go test (heap (init test tlds utlds customSchemes)) Nl c = None"
    "t (heap (init test tlds utlds customSchemes) Nl) = Some NL"
    "t (heap (init test tlds utlds customSchemes) Cr) = Some WS"
  by (simp_all add: go_def init_line_states [OF assms] new_State_def)

theorem crlf_run_counterexample:
  "run ascii_classes (init ascii_classes [] [] []) [0x0d, 0x0a, 0x0d, 0x0a]
     = Inr [\<lparr>tok_t = Some NL, tok_v = [0x0d, 0x0a], tok_s = 0, tok_e = 2\<rparr>,
            \<lparr>tok_t = Some NL, tok_v = [0x0d, 0x0a], tok_s = 2, tok_e = 4\<rparr>]"
  by (simp add: run_def run_eval line_go [OF no_line_break_words_empty])

lemma pound_go:
  assumes "no_pound_words tlds utlds customSchemes"
  shows "go test (heap (init test tlds utlds customSchemes)) Start [0x23] = Some 33"
    "go test (heap (init test tlds utlds customSchemes)) 33 c = None"
    "t (heap (init test tlds utlds customSchemes) 33) = Some POUND"
  by (simp_all add: go_def init_pound_state [OF assms] new_State_def)

lemma emoji_pound_go:
  "go test (heap (init test tlds utlds customSchemes)) Emoji [0x23] = Some 55"
  "go test (heap (init test tlds utlds customSchemes)) EmojiJoiner [0x23] = Some 57"
  "t (heap (init test tlds utlds customSchemes) 55) = None"
  "t (heap (init test tlds utlds customSchemes) 57) = None"
  "go test (heap (init test tlds utlds customSchemes)) 55 c = None"
  "go test (heap (init test tlds utlds customSchemes)) 57 c = None"
  by (simp_all add: go_def class_nodes new_State_def)

lemma start_class_go:
  assumes "tables_ok {c} tlds utlds customSchemes" "j (H4 Start) c = None"
    "find (\<lambda>(r, n). test r c) (jr (H4 Start)) = Some (r, n)"
  shows "go test (heap (init test tlds utlds customSchemes)) Start c = n"
  using assms by (simp add: go_def init_Start_key init_Start_jr)

lemma sample_go:
  "go ascii_classes (heap (init ascii_classes [] [] [])) Start [0x61] = Some Word"
  "go ascii_classes (heap (init ascii_classes [] [] [])) Word [0x62] = Some Word"
  "go ascii_classes (heap (init ascii_classes [] [] [])) Word [0x0a] = None"
  "t (heap (init ascii_classes [] [] []) Word) = Some WORD"
proof -
  show "go ascii_classes (heap (init ascii_classes [] [] [])) Start [0x61] = Some Word"
    by (rule start_class_go [where r = re_ASCII_LETTER])
       (simp_all add: tables_ok_def H4_Start J1_sample ascii_classes_def)
qed (simp_all add: go_def class_nodes ascii_classes_def)

lemma sample_run:
  "run ascii_classes (init ascii_classes [] [] []) [0x41, 0x62, 0x0a] =
     Inr [\<lparr>tok_t = Some WORD, tok_v = [0x41, 0x62], tok_s = 0, tok_e = 2\<rparr>,
          \<lparr>tok_t = Some NL, tok_v = [0x0a], tok_s = 2, tok_e = 3\<rparr>]"
  "run ascii_classes (init ascii_classes [] [] []) [0x41, 0x42, 0x0a] =
     Inr [\<lparr>tok_t = Some WORD, tok_v = [0x41, 0x42], tok_s = 0, tok_e = 2\<rparr>,
          \<lparr>tok_t = Some NL, tok_v = [0x0a], tok_s = 2, tok_e = 3\<rparr>]"
  by (simp_all add: run_def run_eval sample_go line_go [OF no_line_break_words_empty])

text \<open>
  Claim C9. From the Emoji state and from the state after a joiner, \<open>#\<close> leads to a
  non-accepting state with no outgoing transition. So no token tagged EMOJI ever contains
  \<open>#\<close>: the scanner rolls back to the emoji before it. When no registered word starts
  with \<open>#\<close>, the start state steps on \<open>#\<close> to the accepting POUND state, which has
  no outgoing transition, so the \<open>#\<close> is a POUND token of its own.
\<close>

theorem pound_outside_emoji:
  "go test (heap (init test tlds utlds customSchemes)) Emoji [0x23] = Some EmojiPound
   \<and> go test (heap (init test tlds utlds customSchemes)) EmojiJoiner [0x23] = Some JoinerPound
   \<and> t (heap (init test tlds utlds customSchemes) EmojiPound) = None
   \<and> t (heap (init test tlds utlds customSchemes) JoinerPound) = None
   \<and> (\<forall>c. go test (heap (init test tlds utlds customSchemes)) EmojiPound c = None
          \<and> go test (heap (init test tlds utlds customSchemes)) JoinerPound c = None)
   \<and> (\<forall>str toks. run test (init test tlds utlds customSchemes) str = Inr toks \<longrightarrow>
          (\<forall>x \<in> set toks. tok_t x = Some EMOJI \<longrightarrow> 0x23 \<notin> set (tok_v x)))
   \<and> (no_pound_words tlds utlds customSchemes \<longrightarrow>
          go test (heap (init test tlds utlds customSchemes)) Start [0x23] = Some Pound
          \<and> t (heap (init test tlds utlds customSchemes) Pound) = Some POUND
          \<and> (\<forall>c. go test (heap (init test tlds utlds customSchemes)) Pound c = None))"
  using emoji_pound_go [of test tlds utlds customSchemes]
    emoji_token_no_pound [of test tlds utlds customSchemes]
    pound_go [of tlds utlds customSchemes test]
  by blast

lemma emoji_sample_go:
  "go emoji_classes (heap (init emoji_classes [] [] [])) Start [0x263a] = Some Emoji"
  "t (heap (init emoji_classes [] [] []) Emoji) = Some EMOJI"
proof -
  show "go emoji_classes (heap (init emoji_classes [] [] [])) Start [0x263a] = Some Emoji"
    by (rule start_class_go [where r = re_EMOJI])
       (simp_all add: tables_ok_def H4_Start J1_sample emoji_classes_def)
qed (simp add: class_nodes)

theorem pound_outside_emoji_witness:
  "no_pound_words [] [] []
   \<and> run emoji_classes (init emoji_classes [] [] []) [0x263a, 0x23] =
       Inr [\<lparr>tok_t = Some EMOJI, tok_v = [0x263a], tok_s = 0, tok_e = 1\<rparr>,
            \<lparr>tok_t = Some POUND, tok_v = [0x23], tok_s = 1, tok_e = 2\<rparr>]
   \<and> (0x23 :: char16) \<notin> set [0x263a]"
  using pound_outside_emoji [of emoji_classes "[]" "[]" "[]"] no_pound_words_empty
  by (simp add: run_def run_eval emoji_sample_go)

theorem run_partition_witness:
  "run_with (go ascii_classes (heap (init ascii_classes [] [] [])))
       (\<lambda>q. t (heap (init ascii_classes [] [] []) q)) Start [0x41, 0x62, 0x0a] =
     Inr [\<lparr>tok_t = Some WORD, tok_v = [0x41, 0x62], tok_s = 0, tok_e = 2\<rparr>,
          \<lparr>tok_t = Some NL, tok_v = [0x0a], tok_s = 2, tok_e = 3\<rparr>]
   \<and> concat (map tok_v [\<lparr>tok_t = Some WORD, tok_v = [0x41, 0x62], tok_s = 0, tok_e = 2\<rparr>,
          \<lparr>tok_t = Some NL, tok_v = [0x0a], tok_s = 2, tok_e = 3\<rparr>]) = [0x41, 0x62, 0x0a :: char16]"
  using run_partition [OF sample_run(1) [unfolded run_def]] sample_run(1) [unfolded run_def]
  by simp

lemma upper_sample: "upper_ascii [0x41, 0x62, 0x0a] = [0x41, 0x42, 0x0a]"
  by (simp add: upper_ascii_def)

theorem run_case_insensitive_witness:
  "upper_ascii [0x41, 0x62, 0x0a] = [0x41, 0x42, 0x0a]
   \<and> same_spans
        (run_with (go ascii_classes (heap (init ascii_classes [] [] [])))
           (\<lambda>q. t (heap (init ascii_classes [] [] []) q)) Start [0x41, 0x62, 0x0a])
        (run_with (go ascii_classes (heap (init ascii_classes [] [] [])))
           (\<lambda>q. t (heap (init ascii_classes [] [] []) q)) Start [0x41, 0x42, 0x0a])
   \<and> run_with (go ascii_classes (heap (init ascii_classes [] [] [])))
           (\<lambda>q. t (heap (init ascii_classes [] [] []) q)) Start [0x41, 0x62, 0x0a] =
       Inr [\<lparr>tok_t = Some WORD, tok_v = [0x41, 0x62], tok_s = 0, tok_e = 2\<rparr>,
            \<lparr>tok_t = Some NL, tok_v = [0x0a], tok_s = 2, tok_e = 3\<rparr>]
   \<and> run_with (go ascii_classes (heap (init ascii_classes [] [] [])))
           (\<lambda>q. t (heap (init ascii_classes [] [] []) q)) Start [0x41, 0x42, 0x0a] =
       Inr [\<lparr>tok_t = Some WORD, tok_v = [0x41, 0x42], tok_s = 0, tok_e = 2\<rparr>,
            \<lparr>tok_t = Some NL, tok_v = [0x0a], tok_s = 2, tok_e = 3\<rparr>]"
  using run_case_insensitive [of "go ascii_classes (heap (init ascii_classes [] [] []))"
      "\<lambda>q. t (heap (init ascii_classes [] [] []) q)" Start "[0x41, 0x62, 0x0a]"]
    sample_run [unfolded run_def] upper_sample
  by (simp add: slice_def)

lemma sample_scan:
  "scan (go ascii_classes (heap (init ascii_classes [] [] [])))
       (\<lambda>q. t (heap (init ascii_classes [] [] []) q)) [[0x61], [0x62], [0x0a]] (init_vars Start 0 0)
   = \<lparr>state = Word, tokenLength = 2, latestAccepting = Some Word, sinceAccepts = 0,
      charsSinceAccepts = 0, cursor = 2, charCursor = 2\<rparr>"
  by (simp add: run_eval sample_go)

theorem run_terminates_witness:
  "run_with (go ascii_classes (heap (init ascii_classes [] [] [])))
       (\<lambda>q. t (heap (init ascii_classes [] [] []) q)) Start [0x41, 0x62, 0x0a] =
     Inr [\<lparr>tok_t = Some WORD, tok_v = [0x41, 0x62], tok_s = 0, tok_e = 2\<rparr>,
          \<lparr>tok_t = Some NL, tok_v = [0x0a], tok_s = 2, tok_e = 3\<rparr>]
   \<and> latestAccepting (scan (go ascii_classes (heap (init ascii_classes [] [] [])))
       (\<lambda>q. t (heap (init ascii_classes [] [] []) q)) [[0x61], [0x62], [0x0a]] (init_vars Start 0 0))
       = Some Word
   \<and> 0 < charCursor (scan (go ascii_classes (heap (init ascii_classes [] [] [])))
       (\<lambda>q. t (heap (init ascii_classes [] [] []) q)) [[0x61], [0x62], [0x0a]] (init_vars Start 0 0))
     - charsSinceAccepts (scan (go ascii_classes (heap (init ascii_classes [] [] [])))
       (\<lambda>q. t (heap (init ascii_classes [] [] []) q)) [[0x61], [0x62], [0x0a]] (init_vars Start 0 0))"
  using run_terminates [of "go ascii_classes (heap (init ascii_classes [] [] []))"
      "\<lambda>q. t (heap (init ascii_classes [] [] []) q)" Start "[0x41, 0x62, 0x0a]"
      "[[0x61], [0x62], [0x0a]]" 0 0]
    sample_run(1) [unfolded run_def] sample_scan
  by simp

text \<open>A run of \<open>n\<close> sequences CR LF.\<close>

definition crlfs :: "nat \<Rightarrow> jsstring" where
  "crlfs n = concat (replicate n [0x0d, 0x0a])"

lemma drop_pairs:
  "drop (2 * k) (concat (replicate n [a, b])) = concat (replicate (n - k) [a, b])"
proof (induction k arbitrary: n)
  case 0
  then show ?case by simp
next
  case (Suc k)
  show ?case
  proof (cases n)
    case 0
    then show ?thesis by simp
  next
    case (Suc m)
    then show ?thesis using Suc.IH [of m] by simp
  qed
qed

lemma nth_pairs:
  assumes "k < n"
  shows "concat (replicate n [a, b]) ! (2 * k) = a" "concat (replicate n [a, b]) ! Suc (2 * k) = b"
proof -
  obtain m where m: "n - k = Suc m" using assms by (cases "n - k") auto
  have l: "length (concat (replicate n [a, b])) = 2 * n" by (induction n) auto
  have d: "drop (2 * k) (concat (replicate n [a, b])) = a # b # concat (replicate m [a, b])"
    unfolding drop_pairs m by simp
  have "concat (replicate n [a, b]) ! (2 * k) = hd (drop (2 * k) (concat (replicate n [a, b])))"
    using assms l by (intro hd_drop_conv_nth [symmetric]) simp
  then show "concat (replicate n [a, b]) ! (2 * k) = a" using d by simp
  have "concat (replicate n [a, b]) ! Suc (2 * k)
      = drop (2 * k) (concat (replicate n [a, b])) ! 1"
    using assms l by simp
  then show "concat (replicate n [a, b]) ! Suc (2 * k) = b" using d by simp
qed

lemma length_pairs: "length (concat (replicate n [a, b])) = 2 * n"
  by (induction n) auto

lemma chunks_Cons: "\<not> is_high c \<Longrightarrow> chunks (c # s) = [c] # chunks s"
  by (cases s) simp_all

lemma chunks_crlfs: "chunks (crlfs n) = concat (replicate n [[0x0d], [0x0a]])"
  by (induction n) (simp_all add: crlfs_def chunks_Cons is_high_def)

lemma lower_crlfs: "toLowerCase_AZ (crlfs n) = crlfs n"
  by (induction n) (simp_all add: crlfs_def toLowerCase_AZ_def)

lemma slice_crlfs:
  assumes "k < n"
  shows "slice (crlfs n) (2 * int k) (2 * int k + 2) = [0x0d, 0x0a]"
proof -
  obtain m where m: "n - k = Suc m" using assms by (cases "n - k") auto
  have "slice (crlfs n) (2 * int k) (2 * int k + 2)
      = take (nat (2 * int k + 2) - nat (2 * int k)) (drop (nat (2 * int k)) (crlfs n))"
    using assms by (intro slice_nat) (simp_all add: crlfs_def length_pairs)
  also have "nat (2 * int k) = 2 * k" by simp
  also have "nat (2 * int k + 2) - 2 * k = 2" by simp
  finally show ?thesis by (simp add: crlfs_def drop_pairs m)
qed

text \<open>Every CR LF of a run is scanned as a token of its own.\<close>

lemma crlf_scan:
  assumes "go0 Start [0x0d] = Some Cr" "go0 Cr [0x0a] = Some Nl" "\<forall>c. go0 Nl c = None"
    "tg Nl = Some NL" "tg Cr = Some WS" "k < n"
  shows "scan go0 tg (concat (replicate n [[0x0d], [0x0a]])) (init_vars Start (2 * int k) (2 * int k))
     = \<lparr>state = Nl, tokenLength = 2, latestAccepting = Some Nl, sinceAccepts = 0,
        charsSinceAccepts = 0, cursor = 2 * int k + 2, charCursor = 2 * int k + 2\<rparr>"
proof -
  let ?it = "concat (replicate n [[0x0d], [0x0a :: char16]])"
  have l: "int (length ?it) = 2 * int n" by (simp add: length_pairs)
  have n0: "?it ! nat (2 * int k) = [0x0d]"
    using nth_pairs(1) [OF assms(6), of "[0x0d]" "[0x0a]"] by (simp add: nat_mult_distrib)
  have "nat (2 * int k + 1) = Suc (2 * k)" by simp
  then have n1: "?it ! nat (2 * int k + 1) = [0x0a]"
    using nth_pairs(2) [OF assms(6), of "[0x0d]" "[0x0a]"] by simp
  have lt: "2 * int k < 2 * int n" "2 * int k + 1 < 2 * int n" using assms(6) by simp_all
  show ?thesis
    apply (subst scan.simps)
    apply (simp add: init_vars_def l lt n0 assms(1))
    apply (subst scan.simps)
    apply (simp add: scan_step_def accepts_def Let_def l lt n0 n1 assms(2,5))
    apply (subst scan.simps)
    apply (simp add: scan_step_def accepts_def Let_def l n1 assms(3,4,6))
    done
qed

lemma crlf_loop:
  assumes "go0 Start [0x0d] = Some Cr" "go0 Cr [0x0a] = Some Nl" "\<forall>c. go0 Nl c = None"
    "tg Nl = Some NL" "tg Cr = Some WS"
  shows "k \<le> n \<Longrightarrow> m = n - k \<Longrightarrow>
     run_loop go0 tg Start (crlfs n) (concat (replicate n [[0x0d], [0x0a]])) (2 * int k) (2 * int k) toks
     = Inr (toks @ map (\<lambda>i. \<lparr>tok_t = Some NL, tok_v = [0x0d, 0x0a], tok_s = 2 * int i,
                              tok_e = 2 * int i + 2\<rparr>) [k..<n])"
proof (induction m arbitrary: k toks)
  case 0
  then have "k = n" by simp
  then show ?case by (simp add: run_loop.simps [of go0 tg Start "crlfs n"] length_pairs)
next
  case (Suc m)
  then have k: "k < n" "Suc k \<le> n" "m = n - Suc k" by simp_all
  let ?it = "concat (replicate n [[0x0d], [0x0a :: char16]])"
  let ?tok = "\<lambda>i. \<lparr>tok_t = Some NL, tok_v = [0x0d, 0x0a], tok_s = 2 * int i, tok_e = 2 * int i + 2\<rparr>"
  have lt: "2 * int k < int (length ?it)" using k(1) by (simp add: length_pairs)
  have s: "slice (crlfs n) (2 * int k) (2 * int k + 2) = [0x0d, 0x0a]" by (rule slice_crlfs [OF k(1)])
  have s': "slice (crlfs n) (int k * 2) (2 + int k * 2) = [0x0d, 0x0a]"
    using s by (simp add: ac_simps)
  have "run_loop go0 tg Start (crlfs n) ?it (2 * int k) (2 * int k) toks
      = run_loop go0 tg Start (crlfs n) ?it (2 * int (Suc k)) (2 * int (Suc k)) (toks @ [?tok k])"
    apply (subst run_loop.simps)
    apply (simp only: lt if_True crlf_scan [OF assms k(1)] Let_def)
    apply (simp add: assms(4) s s' ac_simps)
    done
  also have "\<dots> = Inr ((toks @ [?tok k]) @ map ?tok [Suc k..<n])"
    by (rule Suc.IH [OF k(2,3)])
  also have "(toks @ [?tok k]) @ map ?tok [Suc k..<n] = toks @ map ?tok [k..<n]"
    using k(1) by (simp add: upt_conv_Cons)
  finally show ?case .
qed

lemma crlf_runs:
  assumes "go0 Start [0x0d] = Some Cr" "go0 Cr [0x0a] = Some Nl" "\<forall>c. go0 Nl c = None"
    "tg Nl = Some NL" "tg Cr = Some WS"
  shows "run_with go0 tg Start (crlfs n)
     = Inr (map (\<lambda>i. \<lparr>tok_t = Some NL, tok_v = [0x0d, 0x0a], tok_s = 2 * int i,
                       tok_e = 2 * int i + 2\<rparr>) [0..<n])"
  using crlf_loop [OF assms, of 0 n n "[]"]
  by (simp add: run_with_def lower_crlfs stringToArray_chunks chunks_crlfs)

text \<open>
  Claim C6, amended. When no registered word starts with a line break, a lone LF is scanned
  as one NL token, a lone CR as one WS token and the sequence CR LF as one NL token. The NL
  state has no outgoing edge, so a run of CR LF sequences is not one token: the run of
  \<open>n\<close> sequences is scanned as \<open>n\<close> NL tokens, the \<open>i\<close>-th of them the CR LF
  at the offsets \<open>2i\<close> to \<open>2i + 2\<close>.
\<close>

theorem line_break_tokens:
  assumes "no_line_break_words tlds utlds customSchemes"
  shows "run test (init test tlds utlds customSchemes) [0x0a]
           = Inr [\<lparr>tok_t = Some NL, tok_v = [0x0a], tok_s = 0, tok_e = 1\<rparr>]
    \<and> run test (init test tlds utlds customSchemes) [0x0d]
           = Inr [\<lparr>tok_t = Some WS, tok_v = [0x0d], tok_s = 0, tok_e = 1\<rparr>]
    \<and> run test (init test tlds utlds customSchemes) [0x0d, 0x0a]
           = Inr [\<lparr>tok_t = Some NL, tok_v = [0x0d, 0x0a], tok_s = 0, tok_e = 2\<rparr>]
    \<and> (\<forall>n. run test (init test tlds utlds customSchemes) (concat (replicate n [0x0d, 0x0a]))
           = Inr (map (\<lambda>i. \<lparr>tok_t = Some NL, tok_v = [0x0d, 0x0a], tok_s = 2 * int i,
                             tok_e = 2 * int i + 2\<rparr>) [0..<n]))
    \<and> (\<forall>c. go test (heap (init test tlds utlds customSchemes)) Nl c = None)"
proof -
  note g = line_go [OF assms, of test]
  have "run test (init test tlds utlds customSchemes) (concat (replicate n [0x0d, 0x0a]))
           = Inr (map (\<lambda>i. \<lparr>tok_t = Some NL, tok_v = [0x0d, 0x0a], tok_s = 2 * int i,
                             tok_e = 2 * int i + 2\<rparr>) [0..<n])" for n
    unfolding run_def using crlf_runs [of "go test (heap (init test tlds utlds customSchemes))"
        "\<lambda>q. t (heap (init test tlds utlds customSchemes) q)" n] g
    by (simp add: crlfs_def)
  then show ?thesis by (simp add: run_def run_eval g)
qed

lemma upt_3: "[0..<3] = [0, 1, 2]"
  by (simp add: upt_rec)

theorem line_break_tokens_witness:
  "no_line_break_words [] [] []
   \<and> run ascii_classes (init ascii_classes [] [] []) [0x0d, 0x0a, 0x0d, 0x0a, 0x0d, 0x0a]
           = Inr [\<lparr>tok_t = Some NL, tok_v = [0x0d, 0x0a], tok_s = 0, tok_e = 2\<rparr>,
                  \<lparr>tok_t = Some NL, tok_v = [0x0d, 0x0a], tok_s = 2, tok_e = 4\<rparr>,
                  \<lparr>tok_t = Some NL, tok_v = [0x0d, 0x0a], tok_s = 4, tok_e = 6\<rparr>]"
proof -
  note T = line_break_tokens [OF no_line_break_words_empty, of ascii_classes]
  note U = T [THEN conjunct2, THEN conjunct2, THEN conjunct2, THEN conjunct1, rule_format, of 3]
  show ?thesis using U no_line_break_words_empty by (simp add: upt_3 numeral_3_eq_3)
qed

end
